theory Spec2Isabelle
  imports Main "HOL-Library.Word"
begin

unbundle bit_operations_syntax

section \<open>Integers, failures and the zone\<close>

text \<open>
  The development embeds \<^verbatim>\<open>src/bit-vector.h\<close>: the class \<^verbatim>\<open>BitVector\<close>, its iterator and
  \<^verbatim>\<open>GrowableBitVector\<close>. A C++ \<^verbatim>\<open>int\<close> is an \<^typ>\<open>int\<close>; the one place of the header
  where an \<^verbatim>\<open>int\<close> can leave its 32 bits (the doubling in \<^verbatim>\<open>EnsureCapacity\<close>) checks the
  bound explicitly. Division and remainder of C++ truncate towards zero.
\<close>

definition c_div :: "int \<Rightarrow> int \<Rightarrow> int" where
  "c_div a b = sgn a * sgn b * (\<bar>a\<bar> div \<bar>b\<bar>)"

definition c_mod :: "int \<Rightarrow> int \<Rightarrow> int" where
  "c_mod a b = a - b * c_div a b"

definition INT_MAX :: int where
  "INT_MAX = 2147483647"

text \<open>
  A call either returns or fails. \<open>DCheckFailed\<close> is a violated \<^verbatim>\<open>DCHECK\<close>,
  \<open>OutOfBounds\<close> an access outside an allocated array, \<open>IntOverflow\<close> a signed overflow,
  and \<open>Diverges\<close> stands for a call that never returns.
\<close>

datatype error = DCheckFailed | OutOfBounds | IntOverflow | Diverges

text \<open>
  The zone owns every word array. An array is named by its address, the position in
  \<open>arrays\<close>; nothing is ever freed. \<^verbatim>\<open>NewArray\<close> hands out uninitialised memory: the new
  array holds whatever \<open>fresh\<close> says, which no theorem below constrains.
\<close>

record 'w Zone =
  arrays :: "'w list list"
  fresh :: "nat \<Rightarrow> 'w"

definition NewArray :: "'w Zone \<Rightarrow> int \<Rightarrow> nat \<times> 'w Zone" where
  "NewArray zone n =
     (length (arrays zone), zone\<lparr>arrays := arrays zone @ [map (fresh zone) [0..<nat n]]\<rparr>)"

text \<open>Reading and writing \<^verbatim>\<open>p[i]\<close>.\<close>

definition rd :: "'w Zone \<Rightarrow> nat \<Rightarrow> int \<Rightarrow> error + 'w" where
  "rd zone p i =
     (if p < length (arrays zone) \<and> 0 \<le> i \<and> i < int (length (arrays zone ! p))
      then Inr (arrays zone ! p ! nat i) else Inl OutOfBounds)"

definition wr :: "'w Zone \<Rightarrow> nat \<Rightarrow> int \<Rightarrow> 'w \<Rightarrow> error + 'w Zone" where
  "wr zone p i v =
     (if p < length (arrays zone) \<and> 0 \<le> i \<and> i < int (length (arrays zone ! p))
      then Inr (zone\<lparr>arrays := (arrays zone)[p := (arrays zone ! p)[nat i := v]]\<rparr>)
      else Inl OutOfBounds)"

text \<open>\<^verbatim>\<open>for (int i = ...; i < n; i++) body\<close>, with the loop's variables in \<open>s\<close>.\<close>

function for_loop :: "int \<Rightarrow> int \<Rightarrow> (int \<Rightarrow> 's \<Rightarrow> error + 's) \<Rightarrow> 's \<Rightarrow> error + 's" where
  "for_loop i n body s =
     (if i < n
      then (case body i s of Inl e \<Rightarrow> Inl e | Inr s' \<Rightarrow> for_loop (i + 1) n body s')
      else Inr s)"
  by pat_completeness auto
termination
  by (relation "measure (\<lambda>(i, n, body, s). nat (n - i))") auto

declare for_loop.simps [simp del]

section \<open>BitVector\<close>

text \<open>
  Modelled from the spec: \<^verbatim>\<open>kPointerSize\<close> is declared outside the header; the
  specification leaves the word width to the platform (32 or 64). The word type is
  therefore a parameter \<^typ>\<open>'a word\<close>, and \<open>kDataBits\<close> is its width.
\<close>

definition kDataBits :: "'a::len itself \<Rightarrow> int" where
  "kDataBits T = int LENGTH('a)"

definition kOne :: "'a::len word" where
  "kOne = 1"

text \<open>
  The object: its three fields. \<open>data_\<close> is the address of the word array. The fields
  \<open>length_\<close> and \<open>data_length_\<close> are held in the header, which the functions below take
  and return as a value; the words are held in the zone, where two headers with the same
  \<open>data_\<close> share them.
\<close>

record BitVector =
  length' :: int
  data_length' :: int
  data' :: nat

definition SizeFor :: "'a::len itself \<Rightarrow> int \<Rightarrow> int" where
  "SizeFor T len = (if len = 0 then 1 else 1 + c_div (len - 1) (kDataBits T))"

definition Contains :: "BitVector \<Rightarrow> int \<Rightarrow> 'a::len word Zone \<Rightarrow> error + bool" where
  "Contains this i zone =
     (if 0 \<le> i \<and> i < length' this
      then (case rd zone (data' this) (c_div i (kDataBits TYPE('a))) of
              Inl e \<Rightarrow> Inl e
            | Inr block \<Rightarrow>
                Inr (block AND push_bit (nat (c_mod i (kDataBits TYPE('a)))) kOne \<noteq> 0))
      else Inl DCheckFailed)"

text \<open>\<^verbatim>\<open>p[i] = f(p[i])\<close>, as \<^verbatim>\<open>|=\<close> and \<^verbatim>\<open>&=\<close> do.\<close>

definition modify :: "'w Zone \<Rightarrow> nat \<Rightarrow> int \<Rightarrow> ('w \<Rightarrow> 'w) \<Rightarrow> error + 'w Zone" where
  "modify zone p i f =
     (case rd zone p i of Inl e \<Rightarrow> Inl e | Inr x \<Rightarrow> wr zone p i (f x))"

definition Add :: "BitVector \<Rightarrow> int \<Rightarrow> 'a::len word Zone \<Rightarrow> error + 'a word Zone" where
  "Add this i zone =
     (if 0 \<le> i \<and> i < length' this
      then modify zone (data' this) (c_div i (kDataBits TYPE('a)))
             (\<lambda>x. x OR push_bit (nat (c_mod i (kDataBits TYPE('a)))) kOne)
      else Inl DCheckFailed)"

definition Remove :: "BitVector \<Rightarrow> int \<Rightarrow> 'a::len word Zone \<Rightarrow> error + 'a word Zone" where
  "Remove this i zone =
     (if 0 \<le> i \<and> i < length' this
      then modify zone (data' this) (c_div i (kDataBits TYPE('a)))
             (\<lambda>x. x AND NOT (push_bit (nat (c_mod i (kDataBits TYPE('a)))) kOne))
      else Inl DCheckFailed)"

definition Clear :: "BitVector \<Rightarrow> 'a::len word Zone \<Rightarrow> error + 'a word Zone" where
  "Clear this zone =
     for_loop 0 (data_length' this) (\<lambda>i z. wr z (data' this) i 0) zone"

text \<open>The constructor \<^verbatim>\<open>BitVector(int length, Zone* zone)\<close>.\<close>

definition BitVector_new :: "int \<Rightarrow> 'a::len word Zone \<Rightarrow> error + BitVector \<times> 'a word Zone" where
  "BitVector_new len zone =
     (let n = SizeFor TYPE('a) len;
          (p, zone1) = NewArray zone n;
          this = \<lparr>length' = len, data_length' = n, data' = p\<rparr>
      in if 0 \<le> len
         then (case Clear this zone1 of Inl e \<Rightarrow> Inl e | Inr zone2 \<Rightarrow> Inr (this, zone2))
         else Inl DCheckFailed)"

text \<open>
  The private \<^verbatim>\<open>CopyFrom(uintptr_t* other_data, int other_data_length)\<close>: the two loops,
  one after the other.
\<close>

definition CopyFrom_data :: "BitVector \<Rightarrow> nat \<Rightarrow> int \<Rightarrow> 'a::len word Zone \<Rightarrow> error + 'a word Zone" where
  "CopyFrom_data this other_data other_data_length zone =
     (if other_data_length \<le> data_length' this
      then (case for_loop 0 other_data_length
                   (\<lambda>i z. case rd z other_data i of
                             Inl e \<Rightarrow> Inl e
                           | Inr v \<Rightarrow> wr z (data' this) i v) zone of
              Inl e \<Rightarrow> Inl e
            | Inr zone1 \<Rightarrow>
                for_loop other_data_length (data_length' this)
                  (\<lambda>i z. wr z (data' this) i 0) zone1)
      else Inl DCheckFailed)"

definition CopyFrom :: "BitVector \<Rightarrow> BitVector \<Rightarrow> 'a::len word Zone \<Rightarrow> error + 'a word Zone" where
  "CopyFrom this other zone =
     (if length' other \<le> length' this
      then CopyFrom_data this (data' other) (data_length' other) zone
      else Inl DCheckFailed)"

text \<open>The copy constructor \<^verbatim>\<open>BitVector(const BitVector& other, Zone* zone)\<close>.\<close>

definition BitVector_copy :: "BitVector \<Rightarrow> 'a::len word Zone \<Rightarrow> error + BitVector \<times> 'a word Zone" where
  "BitVector_copy other zone =
     (let len = length' other;
          n = SizeFor TYPE('a) len;
          (p, zone1) = NewArray zone n;
          this = \<lparr>length' = len, data_length' = n, data' = p\<rparr>
      in case CopyFrom this other zone1 of
           Inl e \<Rightarrow> Inl e
         | Inr zone2 \<Rightarrow> Inr (this, zone2))"

definition Resize :: "BitVector \<Rightarrow> int \<Rightarrow> 'a::len word Zone \<Rightarrow> error + BitVector \<times> 'a word Zone" where
  "Resize this new_length zone =
     (if new_length > length' this
      then (let new_data_length = SizeFor TYPE('a) new_length in
            if new_data_length > data_length' this
            then (let old_data = data' this;
                      old_data_length = data_length' this;
                      (p, zone1) = NewArray zone new_data_length;
                      this1 = this\<lparr>data' := p, data_length' := new_data_length\<rparr>
                  in case CopyFrom_data this1 old_data old_data_length zone1 of
                       Inl e \<Rightarrow> Inl e
                     | Inr zone2 \<Rightarrow> Inr (this1\<lparr>length' := new_length\<rparr>, zone2))
            else Inr (this\<lparr>length' := new_length\<rparr>, zone))
      else Inl DCheckFailed)"

text \<open>
  \<^verbatim>\<open>memset(data_, -1, sizeof(uintptr_t) * data_length_)\<close>: every byte of the first
  \<open>n\<close> words becomes \<^verbatim>\<open>0xFF\<close>, so each of these words is all ones.
\<close>

definition memset_words :: "'w Zone \<Rightarrow> nat \<Rightarrow> 'w \<Rightarrow> int \<Rightarrow> error + 'w Zone" where
  "memset_words zone p v n =
     (if p < length (arrays zone) \<and> n \<le> int (length (arrays zone ! p))
      then Inr (zone\<lparr>arrays :=
             (arrays zone)[p := replicate (nat n) v @ drop (nat n) (arrays zone ! p)]\<rparr>)
      else Inl OutOfBounds)"

definition AddAll :: "BitVector \<Rightarrow> 'a::len word Zone \<Rightarrow> error + 'a word Zone" where
  "AddAll this zone = memset_words zone (data' this) (- 1) (data_length' this)"

definition Union :: "BitVector \<Rightarrow> BitVector \<Rightarrow> 'a::len word Zone \<Rightarrow> error + 'a word Zone" where
  "Union this other zone =
     (if length' other = length' this
      then for_loop 0 (data_length' this)
             (\<lambda>i z. case rd z (data' other) i of
                       Inl e \<Rightarrow> Inl e
                     | Inr y \<Rightarrow> modify z (data' this) i (\<lambda>x. x OR y)) zone
      else Inl DCheckFailed)"

definition UnionIsChanged ::
    "BitVector \<Rightarrow> BitVector \<Rightarrow> 'a::len word Zone \<Rightarrow> error + bool \<times> 'a word Zone" where
  "UnionIsChanged this other zone =
     (if length' other = length' this
      then for_loop 0 (data_length' this)
             (\<lambda>i (changed, z).
                case rd z (data' this) i of
                  Inl e \<Rightarrow> Inl e
                | Inr old_data \<Rightarrow>
                    (case rd z (data' other) i of
                       Inl e \<Rightarrow> Inl e
                     | Inr y \<Rightarrow>
                         (case wr z (data' this) i (old_data OR y) of
                            Inl e \<Rightarrow> Inl e
                          | Inr z1 \<Rightarrow>
                              (case rd z1 (data' this) i of
                                 Inl e \<Rightarrow> Inl e
                               | Inr new_data \<Rightarrow>
                                   Inr (if new_data \<noteq> old_data then True else changed, z1)))))
             (False, zone)
      else Inl DCheckFailed)"

definition Intersect :: "BitVector \<Rightarrow> BitVector \<Rightarrow> 'a::len word Zone \<Rightarrow> error + 'a word Zone" where
  "Intersect this other zone =
     (if length' other = length' this
      then for_loop 0 (data_length' this)
             (\<lambda>i z. case rd z (data' other) i of
                       Inl e \<Rightarrow> Inl e
                     | Inr y \<Rightarrow> modify z (data' this) i (\<lambda>x. x AND y)) zone
      else Inl DCheckFailed)"

definition IntersectIsChanged ::
    "BitVector \<Rightarrow> BitVector \<Rightarrow> 'a::len word Zone \<Rightarrow> error + bool \<times> 'a word Zone" where
  "IntersectIsChanged this other zone =
     (if length' other = length' this
      then for_loop 0 (data_length' this)
             (\<lambda>i (changed, z).
                case rd z (data' this) i of
                  Inl e \<Rightarrow> Inl e
                | Inr old_data \<Rightarrow>
                    (case rd z (data' other) i of
                       Inl e \<Rightarrow> Inl e
                     | Inr y \<Rightarrow>
                         (case wr z (data' this) i (old_data AND y) of
                            Inl e \<Rightarrow> Inl e
                          | Inr z1 \<Rightarrow>
                              (case rd z1 (data' this) i of
                                 Inl e \<Rightarrow> Inl e
                               | Inr new_data \<Rightarrow>
                                   Inr (if new_data \<noteq> old_data then True else changed, z1)))))
             (False, zone)
      else Inl DCheckFailed)"

definition Subtract :: "BitVector \<Rightarrow> BitVector \<Rightarrow> 'a::len word Zone \<Rightarrow> error + 'a word Zone" where
  "Subtract this other zone =
     (if length' other = length' this
      then for_loop 0 (data_length' this)
             (\<lambda>i z. case rd z (data' other) i of
                       Inl e \<Rightarrow> Inl e
                     | Inr y \<Rightarrow> modify z (data' this) i (\<lambda>x. x AND NOT y)) zone
      else Inl DCheckFailed)"

text \<open>\<^verbatim>\<open>IsEmpty\<close> and \<^verbatim>\<open>Equals\<close> leave their loop at the first word that decides.\<close>

function IsEmpty_from :: "int \<Rightarrow> BitVector \<Rightarrow> 'a::len word Zone \<Rightarrow> error + bool" where
  "IsEmpty_from i this zone =
     (if i < data_length' this
      then (case rd zone (data' this) i of
              Inl e \<Rightarrow> Inl e
            | Inr x \<Rightarrow> if x \<noteq> 0 then Inr False else IsEmpty_from (i + 1) this zone)
      else Inr True)"
  by pat_completeness auto
termination
  by (relation "measure (\<lambda>(i, this, zone). nat (data_length' this - i))") auto

declare IsEmpty_from.simps [simp del]

definition IsEmpty :: "BitVector \<Rightarrow> 'a::len word Zone \<Rightarrow> error + bool" where
  "IsEmpty this zone = IsEmpty_from 0 this zone"

function Equals_from :: "int \<Rightarrow> BitVector \<Rightarrow> BitVector \<Rightarrow> 'a::len word Zone \<Rightarrow> error + bool" where
  "Equals_from i this other zone =
     (if i < data_length' this
      then (case rd zone (data' this) i of
              Inl e \<Rightarrow> Inl e
            | Inr x \<Rightarrow>
                (case rd zone (data' other) i of
                   Inl e \<Rightarrow> Inl e
                 | Inr y \<Rightarrow> if x \<noteq> y then Inr False else Equals_from (i + 1) this other zone))
      else Inr True)"
  by pat_completeness auto
termination
  by (relation "measure (\<lambda>(i, this, other, zone). nat (data_length' this - i))") auto

declare Equals_from.simps [simp del]

definition Equals :: "BitVector \<Rightarrow> BitVector \<Rightarrow> 'a::len word Zone \<Rightarrow> error + bool" where
  "Equals this other zone = Equals_from 0 this other zone"

text \<open>
  Modelled from the spec: \<^verbatim>\<open>BitVector::Count\<close> is declared in the header and defined
  elsewhere. The specification: the population count, "implemented by summing per-word
  popcount".
\<close>

definition popcount :: "'a::len word \<Rightarrow> int" where
  "popcount x = int (length (filter (bit x) [0..<LENGTH('a)]))"

definition Count :: "BitVector \<Rightarrow> 'a::len word Zone \<Rightarrow> error + int" where
  "Count this zone =
     for_loop 0 (data_length' this)
       (\<lambda>i count. case rd zone (data' this) i of
                     Inl e \<Rightarrow> Inl e
                   | Inr x \<Rightarrow> Inr (count + popcount x)) 0"

section \<open>BitVector::Iterator\<close>

record 'w Iterator =
  target' :: BitVector
  current_index' :: int
  current_value' :: 'w
  current' :: int

definition Done :: "'w Iterator \<Rightarrow> bool" where
  "Done it \<longleftrightarrow> current_index' it \<ge> data_length' (target' it)"

definition Current :: "'w Iterator \<Rightarrow> error + int" where
  "Current it = (if \<not> Done it then Inr (current' it) else Inl DCheckFailed)"

text \<open>
  The two \<^verbatim>\<open>while\<close> loops of the header. Nothing in them stops at a zero word, so they
  are partial: \<open>None\<close> is the loop that runs forever.
\<close>

partial_function (option) SkipZeroBytes ::
    "'a::len word Iterator \<Rightarrow> 'a word \<Rightarrow> ('a word \<times> 'a word Iterator) option" where
  "SkipZeroBytes it val =
     (if val AND 0xFF = 0
      then SkipZeroBytes (it\<lparr>current' := current' it + 8\<rparr>) (drop_bit 8 val)
      else Some (val, it))"

declare SkipZeroBytes.simps [code]

partial_function (option) SkipZeroBits ::
    "'a::len word Iterator \<Rightarrow> 'a word \<Rightarrow> ('a word \<times> 'a word Iterator) option" where
  "SkipZeroBits it val =
     (if val AND 0x1 = 0
      then SkipZeroBits (it\<lparr>current' := current' it + 1\<rparr>) (drop_bit 1 val)
      else Some (val, it))"

declare SkipZeroBits.simps [code]

text \<open>
  Modelled from the spec: \<^verbatim>\<open>BitVector::Iterator::Advance\<close> is declared in the header and
  defined elsewhere. The specification (section 4.2) keeps "a running bit-index counter
  and the remaining bits of the current word shifted so bit 0 is the next unexamined bit",
  and gives three steps. Step 1: "If the remaining word value is zero, move to the next
  word (incrementing the word index and the running bit-index counter by \<open>WordBits\<close>),
  repeating until either a non-zero word is found or all words are exhausted": this is
  \<open>skip_zero_words\<close>, which adds one to \<open>current_index'\<close> and \<open>kDataBits\<close> to \<open>current'\<close> at
  every move. Step 2 is the header's two loops. Step 3 records the counter and consumes
  the reported bit by one more shift before the next search; the constructor of the header
  starts \<^verbatim>\<open>current_\<close> at -1 and \<^verbatim>\<open>current_value_\<close> at the whole first word and calls
  \<^verbatim>\<open>Advance()\<close>, so a call first adds one to the counter and ends with that shift.
\<close>

function skip_zero_words :: "'a::len word Iterator \<Rightarrow> 'a word Zone \<Rightarrow> error + 'a word Iterator" where
  "skip_zero_words it zone =
     (if current_value' it = 0
      then (let it1 = it\<lparr>current_index' := current_index' it + 1\<rparr> in
            if Done it1 then Inr it1
            else (case rd zone (data' (target' it1)) (current_index' it1) of
                    Inl e \<Rightarrow> Inl e
                  | Inr v \<Rightarrow>
                      skip_zero_words
                        (it1\<lparr>current_value' := v,
                             current' := current' it1 + kDataBits TYPE('a)\<rparr>) zone))
      else Inr it)"
  by pat_completeness auto
termination
  by (relation "measure (\<lambda>(it, zone). nat (data_length' (target' it) - current_index' it))")
    (auto simp: Done_def)

declare skip_zero_words.simps [simp del]

definition Advance :: "'a::len word Iterator \<Rightarrow> 'a word Zone \<Rightarrow> error + 'a word Iterator" where
  "Advance it zone =
     (case skip_zero_words (it\<lparr>current' := current' it + 1\<rparr>) zone of
        Inl e \<Rightarrow> Inl e
      | Inr it1 \<Rightarrow>
          if current_value' it1 = 0 then Inr it1
          else (case SkipZeroBytes it1 (current_value' it1) of
                  None \<Rightarrow> Inl Diverges
                | Some (val, it2) \<Rightarrow>
                    (case SkipZeroBits it2 val of
                       None \<Rightarrow> Inl Diverges
                     | Some (val1, it3) \<Rightarrow> Inr (it3\<lparr>current_value' := drop_bit 1 val1\<rparr>))))"

text \<open>The constructor \<^verbatim>\<open>Iterator(BitVector* target)\<close>.\<close>

definition Iterator_new :: "BitVector \<Rightarrow> 'a::len word Zone \<Rightarrow> error + 'a word Iterator" where
  "Iterator_new target zone =
     (case rd zone (data' target) 0 of
        Inl e \<Rightarrow> Inl e
      | Inr v \<Rightarrow>
          if data_length' target > 0
          then Advance \<lparr>target' = target, current_index' = 0, current_value' = v,
                        current' = - 1\<rparr> zone
          else Inl DCheckFailed)"

text \<open>
  A full traversal, \<^verbatim>\<open>for (; !it.Done(); it.Advance()) out.push_back(it.Current())\<close>,
  returns the indices in the order the iterator gives them.
\<close>

partial_function (option) traverse ::
    "'a::len word Iterator \<Rightarrow> 'a word Zone \<Rightarrow> int list \<Rightarrow> (error + int list) option" where
  "traverse it zone out =
     (if Done it then Some (Inr out)
      else (case Current it of
              Inl e \<Rightarrow> Some (Inl e)
            | Inr x \<Rightarrow>
                (case Advance it zone of
                   Inl e \<Rightarrow> Some (Inl e)
                 | Inr it1 \<Rightarrow> traverse it1 zone (out @ [x]))))"

declare traverse.simps [code]

definition elements :: "BitVector \<Rightarrow> 'a::len word Zone \<Rightarrow> error + int list" where
  "elements this zone =
     (case Iterator_new this zone of
        Inl e \<Rightarrow> Inl e
      | Inr it \<Rightarrow> (case traverse it zone [] of None \<Rightarrow> Inl Diverges | Some r \<Rightarrow> r))"

section \<open>GrowableBitVector\<close>

record GrowableBitVector =
  bits' :: "BitVector option"

definition kInitialLength :: int where
  "kInitialLength = 1024"

text \<open>The two constructors.\<close>

definition GrowableBitVector_empty :: GrowableBitVector where
  "GrowableBitVector_empty = \<lparr>bits' = None\<rparr>"

definition GrowableBitVector_new ::
    "int \<Rightarrow> 'a::len word Zone \<Rightarrow> error + GrowableBitVector \<times> 'a word Zone" where
  "GrowableBitVector_new len zone =
     (case BitVector_new len zone of
        Inl e \<Rightarrow> Inl e
      | Inr (b, zone1) \<Rightarrow> Inr (\<lparr>bits' = Some b\<rparr>, zone1))"

definition InBitsRange :: "GrowableBitVector \<Rightarrow> int \<Rightarrow> bool" where
  "InBitsRange this v = (case bits' this of None \<Rightarrow> False | Some b \<Rightarrow> length' b > v)"

definition Growable_Contains :: "GrowableBitVector \<Rightarrow> int \<Rightarrow> 'a::len word Zone \<Rightarrow> error + bool" where
  "Growable_Contains this v zone =
     (if \<not> InBitsRange this v then Inr False
      else (case bits' this of None \<Rightarrow> Inl OutOfBounds | Some b \<Rightarrow> Contains b v zone))"

text \<open>
  \<^verbatim>\<open>while (new_length <= value) new_length *= 2;\<close> The product of two \<^verbatim>\<open>int\<close>s must be an
  \<^verbatim>\<open>int\<close>; the loop need not end.
\<close>

partial_function (option) EnsureCapacity_loop :: "int \<Rightarrow> int \<Rightarrow> (error + int) option" where
  "EnsureCapacity_loop new_length v =
     (if new_length \<le> v
      then (if new_length * 2 > INT_MAX \<or> new_length * 2 < - INT_MAX - 1
            then Some (Inl IntOverflow)
            else EnsureCapacity_loop (new_length * 2) v)
      else Some (Inr new_length))"

declare EnsureCapacity_loop.simps [code]

definition EnsureCapacity ::
    "GrowableBitVector \<Rightarrow> int \<Rightarrow> 'a::len word Zone \<Rightarrow> error + GrowableBitVector \<times> 'a word Zone" where
  "EnsureCapacity this v zone =
     (if InBitsRange this v then Inr (this, zone)
      else (case EnsureCapacity_loop
                   (case bits' this of None \<Rightarrow> kInitialLength | Some b \<Rightarrow> length' b) v of
              None \<Rightarrow> Inl Diverges
            | Some (Inl e) \<Rightarrow> Inl e
            | Some (Inr new_length) \<Rightarrow>
                (case bits' this of
                   None \<Rightarrow>
                     (case BitVector_new new_length zone of
                        Inl e \<Rightarrow> Inl e
                      | Inr (b, zone1) \<Rightarrow> Inr (this\<lparr>bits' := Some b\<rparr>, zone1))
                 | Some b \<Rightarrow>
                     (case Resize b new_length zone of
                        Inl e \<Rightarrow> Inl e
                      | Inr (b1, zone1) \<Rightarrow> Inr (this\<lparr>bits' := Some b1\<rparr>, zone1)))))"

definition Growable_Add ::
    "GrowableBitVector \<Rightarrow> int \<Rightarrow> 'a::len word Zone \<Rightarrow> error + GrowableBitVector \<times> 'a word Zone" where
  "Growable_Add this v zone =
     (case EnsureCapacity this v zone of
        Inl e \<Rightarrow> Inl e
      | Inr (this1, zone1) \<Rightarrow>
          (case bits' this1 of
             None \<Rightarrow> Inl OutOfBounds
           | Some b \<Rightarrow>
               (case Add b v zone1 of
                  Inl e \<Rightarrow> Inl e
                | Inr zone2 \<Rightarrow> Inr (this1, zone2))))"

text \<open>
  \<^verbatim>\<open>GrowableBitVector::Iterator\<close>: the iterator of the backing vector, or of a new vector of
  length 1 when there is none.
\<close>

definition Growable_Iterator_new ::
    "GrowableBitVector \<Rightarrow> 'a::len word Zone \<Rightarrow> error + 'a word Iterator \<times> 'a word Zone" where
  "Growable_Iterator_new target zone =
     (case bits' target of
        None \<Rightarrow>
          (case BitVector_new 1 zone of
             Inl e \<Rightarrow> Inl e
           | Inr (b, zone1) \<Rightarrow>
               (case Iterator_new b zone1 of Inl e \<Rightarrow> Inl e | Inr it \<Rightarrow> Inr (it, zone1)))
      | Some b \<Rightarrow> (case Iterator_new b zone of Inl e \<Rightarrow> Inl e | Inr it \<Rightarrow> Inr (it, zone)))"

partial_function (option) Growable_Union_loop ::
    "'a::len word Iterator \<Rightarrow> GrowableBitVector \<Rightarrow> 'a word Zone \<Rightarrow>
       (error + GrowableBitVector \<times> 'a word Zone) option" where
  "Growable_Union_loop it this zone =
     (if Done it then Some (Inr (this, zone))
      else (case Current it of
              Inl e \<Rightarrow> Some (Inl e)
            | Inr x \<Rightarrow>
                (case Growable_Add this x zone of
                   Inl e \<Rightarrow> Some (Inl e)
                 | Inr (this1, zone1) \<Rightarrow>
                     (case Advance it zone1 of
                        Inl e \<Rightarrow> Some (Inl e)
                      | Inr it1 \<Rightarrow> Growable_Union_loop it1 this1 zone1))))"

declare Growable_Union_loop.simps [code]

definition Growable_Union ::
    "GrowableBitVector \<Rightarrow> GrowableBitVector \<Rightarrow> 'a::len word Zone \<Rightarrow>
       error + GrowableBitVector \<times> 'a word Zone" where
  "Growable_Union this other zone =
     (case Growable_Iterator_new other zone of
        Inl e \<Rightarrow> Inl e
      | Inr (it, zone1) \<Rightarrow>
          (case Growable_Union_loop it this zone1 of None \<Rightarrow> Inl Diverges | Some r \<Rightarrow> r))"

definition Growable_Clear :: "GrowableBitVector \<Rightarrow> 'a::len word Zone \<Rightarrow> error + 'a word Zone" where
  "Growable_Clear this zone =
     (case bits' this of None \<Rightarrow> Inr zone | Some b \<Rightarrow> Clear b zone)"

section \<open>Example states\<close>

text \<open>
  A 64-bit zone with nothing allocated, whose fresh memory is not zero, and the vector of
  length 10 that the constructor builds in it.
\<close>

definition zone0 :: "64 word Zone" where
  "zone0 = \<lparr>arrays = [], fresh = (\<lambda>_. 0xDEADBEEF)\<rparr>"

definition vec10 :: BitVector where
  "vec10 = \<lparr>length' = 10, data_length' = 1, data' = 0\<rparr>"

definition zone10 :: "64 word Zone" where
  "zone10 = zone0\<lparr>arrays := [[0]]\<rparr>"

definition zone259 :: "64 word Zone" where
  "zone259 = zone0\<lparr>arrays := [[548]]\<rparr>"

definition zoneFF :: "64 word Zone" where
  "zoneFF = zone0\<lparr>arrays := [[- 1]]\<rparr>"

definition vec20 :: BitVector where
  "vec20 = \<lparr>length' = 20, data_length' = 1, data' = 0\<rparr>"

definition zoneABC :: "64 word Zone" where
  "zoneABC = zone0\<lparr>arrays := [[14], [56], [3], [0]]\<rparr>"

definition vecA :: BitVector where
  "vecA = \<lparr>length' = 8, data_length' = 1, data' = 0\<rparr>"

definition vecB :: BitVector where
  "vecB = \<lparr>length' = 8, data_length' = 1, data' = 1\<rparr>"

definition vecC :: BitVector where
  "vecC = \<lparr>length' = 8, data_length' = 1, data' = 2\<rparr>"

definition vecE :: BitVector where
  "vecE = \<lparr>length' = 8, data_length' = 1, data' = 3\<rparr>"

definition vec10' :: BitVector where
  "vec10' = \<lparr>length' = 10, data_length' = 1, data' = 1\<rparr>"

definition zone259' :: "64 word Zone" where
  "zone259' = zone0\<lparr>arrays := [[548], [548]]\<rparr>"

definition zoneFF' :: "64 word Zone" where
  "zoneFF' = zone0\<lparr>arrays := [[- 1], [- 1]]\<rparr>"

section \<open>The class invariant and the words of a vector\<close>

definition words :: "'w Zone \<Rightarrow> BitVector \<Rightarrow> 'w list" where
  "words zone b = arrays zone ! data' b"

text \<open>
  What every constructor establishes and every method keeps: the length is not negative,
  \<open>data_length_\<close> is \<open>SizeFor\<close> of it, and \<open>data_\<close> is an allocated array of that many words.
\<close>

definition wf :: "'a::len word Zone \<Rightarrow> BitVector \<Rightarrow> bool" where
  "wf zone b \<longleftrightarrow>
     0 \<le> length' b \<and> data_length' b = SizeFor TYPE('a) (length' b) \<and>
     data' b < length (arrays zone) \<and> int (length (arrays zone ! data' b)) = data_length' b"

text \<open>
  The bit of index \<open>p\<close> of a word array: bit \<open>p mod kDataBits\<close> of word \<open>p div kDataBits\<close>,
  and no bit beyond the last word.
\<close>

definition bit_at :: "'a::len word list \<Rightarrow> nat \<Rightarrow> bool" where
  "bit_at ws p \<longleftrightarrow>
     p < length ws * LENGTH('a) \<and> bit (ws ! (p div LENGTH('a))) (p mod LENGTH('a))"

text \<open>The padding of a vector, the bits of its words from index \<open>length_\<close> on, is zero.\<close>

definition PaddingZero :: "'a::len word Zone \<Rightarrow> BitVector \<Rightarrow> bool" where
  "PaddingZero zone b \<longleftrightarrow>
     (\<forall>p \<in> {nat (length' b)..<length (words zone b) * LENGTH('a)}. \<not> bit_at (words zone b) p)"

text \<open>
  The indices of the bits set in a word array, from \<open>c\<close> on and in ascending order; and an
  iterator that has examined every position below \<open>c\<close>: \<open>c\<close> lies in its current word
  or right after it, and \<open>current_value'\<close> holds the bits of that word from \<open>c\<close> on.
\<close>

definition bits_from :: "'a::len word list \<Rightarrow> nat \<Rightarrow> nat list" where
  "bits_from ws c = filter (bit_at ws) [c..<length ws * LENGTH('a)]"

definition positioned :: "'a::len word Zone \<Rightarrow> BitVector \<Rightarrow> 'a word Iterator \<Rightarrow> nat \<Rightarrow> bool" where
  "positioned zone b it c \<longleftrightarrow>
     target' it = b \<and> 0 \<le> current_index' it \<and>
     (let k = nat (current_index' it) in
        k < length (words zone b) \<and> k * LENGTH('a) \<le> c \<and> c \<le> Suc k * LENGTH('a) \<and>
        current_value' it = drop_bit (c - k * LENGTH('a)) (words zone b ! k))"

text \<open>
  What a traversal gives for the set positions \<open>qs\<close> of a word array, with words of \<open>W\<close> bits:
  each position plus an excess \<open>e\<close>. The excess stays while the next position is in the
  same word, and grows by the offset in its word of the position last given, plus one, when
  the next position is in a later word.
\<close>

fun reported :: "nat \<Rightarrow> int \<Rightarrow> nat list \<Rightarrow> int list" where
  "reported W e [] = []"
| "reported W e [q] = [int q + e]"
| "reported W e (q # q' # qs) =
     (int q + e) # reported W (if q' div W = q div W then e else e + int (q mod W) + 1) (q' # qs)"

section \<open>Basic facts\<close>

lemma c_div_nonneg: "0 \<le> a \<Longrightarrow> 0 < b \<Longrightarrow> c_div a b = a div b"
  by (cases "a = 0") (simp_all add: c_div_def)

lemma c_mod_nonneg: "0 \<le> a \<Longrightarrow> 0 < b \<Longrightarrow> c_mod a b = a mod b"
  by (simp add: c_mod_def c_div_nonneg minus_mult_div_eq_mod)

lemma kDataBits_pos: "0 < kDataBits TYPE('a::len)"
  by (simp add: kDataBits_def)

lemma SizeFor_pos: "0 < len \<Longrightarrow> SizeFor TYPE('a::len) len = 1 + (len - 1) div kDataBits TYPE('a)"
  by (simp add: SizeFor_def c_div_nonneg kDataBits_pos)

lemma word_index_bound:
  assumes "0 \<le> i" "i < len"
  shows "i div kDataBits TYPE('a::len) < SizeFor TYPE('a) len"
proof -
  have "0 < len" using assms by simp
  moreover have "i div kDataBits TYPE('a) \<le> (len - 1) div kDataBits TYPE('a)"
    using assms by (intro zdiv_mono1) (simp_all add: kDataBits_pos)
  ultimately show ?thesis by (simp add: SizeFor_pos)
qed

lemma wf_index:
  fixes zone :: "'a::len word Zone"
  assumes "wf zone b" "0 \<le> i" "i < length' b"
  shows "nat (i div kDataBits TYPE('a)) < length (words zone b)"
    and "0 \<le> i div kDataBits TYPE('a)"
    and "i div kDataBits TYPE('a) < int (length (arrays zone ! data' b))"
    and "data' b < length (arrays zone)"
    and "nat (i mod kDataBits TYPE('a)) < LENGTH('a)"
  using assms word_index_bound[of i "length' b", where 'a='a] kDataBits_pos[where 'a='a]
  by (simp_all add: wf_def words_def pos_imp_zdiv_nonneg_iff kDataBits_def nat_less_iff)

lemma Contains_bit:
  fixes zone :: "'a::len word Zone"
  assumes "wf zone b" "0 \<le> i" "i < length' b"
  shows "Contains b i zone =
           Inr (bit (words zone b ! nat (i div kDataBits TYPE('a))) (nat (i mod kDataBits TYPE('a))))"
  using assms wf_index[OF assms]
  by (simp add: Contains_def rd_def c_div_nonneg c_mod_nonneg kDataBits_pos kOne_def words_def
      bit_iff_and_push_bit_not_eq_0)

lemma modify_eq:
  assumes "p < length (arrays zone)" "0 \<le> i" "i < int (length (arrays zone ! p))"
  shows "modify zone p i f =
           Inr (zone\<lparr>arrays := (arrays zone)[p := (arrays zone ! p)[nat i := f (arrays zone ! p ! nat i)]]\<rparr>)"
  using assms by (simp add: modify_def rd_def wr_def)

lemma Add_eq:
  fixes zone :: "'a::len word Zone"
  assumes "wf zone b" "0 \<le> i" "i < length' b"
  shows "Add b i zone = Inr (zone\<lparr>arrays := (arrays zone)[data' b :=
     (words zone b)[nat (i div kDataBits TYPE('a)) :=
        words zone b ! nat (i div kDataBits TYPE('a)) OR push_bit (nat (i mod kDataBits TYPE('a))) 1]]\<rparr>)"
  using assms wf_index[OF assms]
  by (simp add: Add_def modify_eq c_div_nonneg c_mod_nonneg kDataBits_pos kOne_def words_def)

lemma Remove_eq:
  fixes zone :: "'a::len word Zone"
  assumes "wf zone b" "0 \<le> i" "i < length' b"
  shows "Remove b i zone = Inr (zone\<lparr>arrays := (arrays zone)[data' b :=
     (words zone b)[nat (i div kDataBits TYPE('a)) :=
        words zone b ! nat (i div kDataBits TYPE('a)) AND NOT (push_bit (nat (i mod kDataBits TYPE('a))) 1)]]\<rparr>)"
  using assms wf_index[OF assms]
  by (simp add: Remove_def modify_eq c_div_nonneg c_mod_nonneg kDataBits_pos kOne_def words_def)

lemma wf_set_words:
  "wf zone b \<Longrightarrow> p < length (arrays zone) \<Longrightarrow> length ws = length (arrays zone ! p) \<Longrightarrow>
   wf (zone\<lparr>arrays := (arrays zone)[p := ws]\<rparr>) b"
  by (cases "p = data' b") (simp_all add: wf_def)

lemma words_set_words:
  "p < length (arrays zone) \<Longrightarrow>
   words (zone\<lparr>arrays := (arrays zone)[p := ws]\<rparr>) b = (if data' b = p then ws else words zone b)"
  by (simp add: words_def)

lemma bit_set_one:
  "m < LENGTH('a) \<Longrightarrow> bit (w OR push_bit m (1::'a::len word)) n \<longleftrightarrow> bit w n \<or> n = m"
  by (auto simp: bit_simps)

lemma bit_clear_one:
  "bit (w AND NOT (push_bit m (1::'a::len word))) n \<longleftrightarrow> bit w n \<and> n \<noteq> m"
  by (auto simp: bit_simps dest: bit_imp_le_length)

lemma same_position:
  fixes i j :: int
  assumes "i div k = j div k" "i mod k = j mod k"
  shows "i = j"
  by (metis assms mult_div_mod_eq)

section \<open>Single bits\<close>

text \<open>
  C1. In a vector of length \<open>L\<close> and for an index \<open>0 \<le> i < L\<close>: \<^verbatim>\<open>Add(i)\<close> returns and
  \<^verbatim>\<open>Contains(i)\<close> is true afterwards; \<^verbatim>\<open>Remove(i)\<close> returns and \<^verbatim>\<open>Contains(i)\<close> is false
  afterwards; and \<^verbatim>\<open>Contains(j)\<close> for every other valid index \<open>j\<close> answers as it did before
  the call.
\<close>

theorem add_remove_contains:
  fixes zone :: "'a::len word Zone"
  assumes "wf zone b" and "0 \<le> i" and "i < length' b"
  shows "\<exists>z1 z2. Add b i zone = Inr z1 \<and> Contains b i z1 = Inr True \<and>
           Remove b i zone = Inr z2 \<and> Contains b i z2 = Inr False \<and>
           (\<forall>j. 0 \<le> j \<and> j < length' b \<and> j \<noteq> i \<longrightarrow>
              Contains b j z1 = Contains b j zone \<and> Contains b j z2 = Contains b j zone)"
proof -
  let ?K = "kDataBits TYPE('a)"
  let ?w = "nat (i div ?K)" and ?m = "nat (i mod ?K)"
  define z1 where "z1 = zone\<lparr>arrays := (arrays zone)[data' b :=
     (words zone b)[?w := words zone b ! ?w OR push_bit ?m 1]]\<rparr>"
  define z2 where "z2 = zone\<lparr>arrays := (arrays zone)[data' b :=
     (words zone b)[?w := words zone b ! ?w AND NOT (push_bit ?m 1)]]\<rparr>"
  note ix = wf_index[OF assms]
  have wf1: "wf z1 b" and wf2: "wf z2 b"
    using assms(1) ix by (simp_all add: z1_def z2_def wf_set_words words_def)
  have w1: "words z1 b = (words zone b)[?w := words zone b ! ?w OR push_bit ?m 1]"
    and w2: "words z2 b = (words zone b)[?w := words zone b ! ?w AND NOT (push_bit ?m 1)]"
    using ix by (simp_all add: z1_def z2_def words_set_words)
  have a: "Add b i zone = Inr z1" and r: "Remove b i zone = Inr z2"
    using assms by (simp_all add: Add_eq Remove_eq z1_def z2_def)
  have c1: "Contains b i z1 = Inr True"
    using ix by (simp add: Contains_bit[OF wf1 assms(2,3)] w1 bit_set_one del: push_bit_of_1)
  have c2: "Contains b i z2 = Inr False"
    using ix by (simp add: Contains_bit[OF wf2 assms(2,3)] w2 bit_clear_one del: push_bit_of_1)
  have other: "Contains b j z1 = Contains b j zone \<and> Contains b j z2 = Contains b j zone"
    if j: "0 \<le> j" "j < length' b" "j \<noteq> i" for j
  proof (cases "j div ?K = i div ?K")
    case True
    then have "j mod ?K \<noteq> i mod ?K" using j(3) same_position by blast
    then have "nat (j mod ?K) \<noteq> ?m"
      using kDataBits_pos[where 'a='a] by (simp add: nat_eq_iff)
    then show ?thesis
      using ix True
      by (simp add: Contains_bit[OF wf1 j(1,2)] Contains_bit[OF wf2 j(1,2)]
          Contains_bit[OF assms(1) j(1,2)] w1 w2 bit_set_one bit_clear_one del: push_bit_of_1)
  next
    case False
    then have "nat (j div ?K) \<noteq> ?w"
      using j(1) assms(2) kDataBits_pos[where 'a='a] by (simp add: nat_eq_iff pos_imp_zdiv_nonneg_iff)
    then show ?thesis
      by (simp add: Contains_bit[OF wf1 j(1,2)] Contains_bit[OF wf2 j(1,2)]
          Contains_bit[OF assms(1) j(1,2)] w1 w2)
  qed
  show ?thesis using a r c1 c2 other by blast
qed


lemma BitVector_new_10: "BitVector_new 10 zone0 = Inr (vec10, zone10)"
  by (simp add: BitVector_new_def NewArray_def SizeFor_def c_div_def kDataBits_def Clear_def
      for_loop.simps wr_def zone0_def vec10_def zone10_def)

lemma wf_vec10: "wf zone10 vec10"
  by (simp add: wf_def vec10_def zone10_def zone0_def SizeFor_def c_div_def kDataBits_def)

theorem add_remove_contains_witness:
  "wf zone10 vec10 \<and> (0::int) \<le> 3 \<and> 3 < length' vec10 \<and>
   (\<exists>z1 z2. Add vec10 3 zone10 = Inr z1 \<and> Contains vec10 3 z1 = Inr True \<and>
      Remove vec10 3 zone10 = Inr z2 \<and> Contains vec10 3 z2 = Inr False \<and>
      Contains vec10 4 z1 = Contains vec10 4 zone10 \<and>
      Contains vec10 4 z2 = Contains vec10 4 zone10)"
proof -
  have h: "(0::int) \<le> 3" "3 < length' vec10" by (simp_all add: vec10_def)
  from add_remove_contains [OF wf_vec10 h]
  obtain z1 z2 where "Add vec10 3 zone10 = Inr z1" "Contains vec10 3 z1 = Inr True"
    "Remove vec10 3 zone10 = Inr z2" "Contains vec10 3 z2 = Inr False"
    "\<forall>j. 0 \<le> j \<and> j < length' vec10 \<and> j \<noteq> 3 \<longrightarrow>
       Contains vec10 j z1 = Contains vec10 j zone10 \<and> Contains vec10 j z2 = Contains vec10 j zone10"
    by blast
  moreover from this(5) have "Contains vec10 4 z1 = Contains vec10 4 zone10 \<and>
      Contains vec10 4 z2 = Contains vec10 4 zone10"
    by (simp add: vec10_def)
  ultimately show ?thesis using wf_vec10 h by blast
qed

section \<open>Loops over the words\<close>

lemma for_loop_done: "n \<le> i \<Longrightarrow> for_loop i n body s = Inr s"
  by (simp add: for_loop.simps)

lemma for_loop_invariant:
  assumes "I i s" and "i \<le> n"
    and step: "\<And>j t. i \<le> j \<Longrightarrow> j < n \<Longrightarrow> I j t \<Longrightarrow> \<exists>t'. body j t = Inr t' \<and> I (j + 1) t'"
  shows "\<exists>t. for_loop i n body s = Inr t \<and> I n t"
  using assms(1,2) step
proof (induction "nat (n - i)" arbitrary: i s)
  case 0
  then have "i = n" by simp
  with 0 show ?case by (simp add: for_loop_done)
next
  case (Suc k)
  then have lt: "i < n" by simp
  from Suc.prems(3)[of i s] lt Suc.prems(1)
  obtain t' where t': "body i s = Inr t'" "I (i + 1) t'" by auto
  have "\<exists>t. for_loop (i + 1) n body t' = Inr t \<and> I n t"
  proof (rule Suc.hyps(1))
    show "k = nat (n - (i + 1))" using Suc.hyps(2) by simp
    show "I (i + 1) t'" by fact
    show "i + 1 \<le> n" using lt by simp
    show "\<exists>t'. body j t = Inr t' \<and> I (j + 1) t'" if "i + 1 \<le> j" "j < n" "I j t" for j t
      using Suc.prems(3)[of j t] that by simp
  qed
  then show ?case using lt t' by (subst for_loop.simps) simp
qed

lemma write_step_list:
  assumes "j < length ws" "lo \<le> j"
  shows "(take lo ws @ map g [lo..<j] @ drop j ws)[j := g j] =
         take lo ws @ map g [lo..<Suc j] @ drop (Suc j) ws"
proof -
  have "drop j ws = ws ! j # drop (Suc j) ws"
    using assms by (simp add: Cons_nth_drop_Suc)
  moreover have "length (take lo ws @ map g [lo..<j]) = j"
    using assms by simp
  ultimately show ?thesis
    using assms by (simp add: list_update_append del: append_assoc add: append_assoc[symmetric])
qed

lemma write_loop:
  fixes zone :: "'w Zone"
  assumes p: "p < length (arrays zone)" and lo: "0 \<le> lo" "lo \<le> n"
    and n: "n \<le> int (length (arrays zone ! p))"
    and body: "\<And>j ws'. lo \<le> j \<Longrightarrow> j < n \<Longrightarrow> length ws' = length (arrays zone ! p) \<Longrightarrow>
        (\<forall>k. nat j \<le> k \<and> k < length ws' \<longrightarrow> ws' ! k = arrays zone ! p ! k) \<Longrightarrow>
        body j (zone\<lparr>arrays := (arrays zone)[p := ws']\<rparr>) =
          Inr (zone\<lparr>arrays := (arrays zone)[p := ws'[nat j := g (nat j)]]\<rparr>)"
  shows "for_loop lo n body zone =
         Inr (zone\<lparr>arrays := (arrays zone)[p :=
            take (nat lo) (arrays zone ! p) @ map g [nat lo..<nat n] @ drop (nat n) (arrays zone ! p)]\<rparr>)"
proof -
  let ?ws = "arrays zone ! p"
  let ?F = "\<lambda>j. take (nat lo) ?ws @ map g [nat lo..<nat j] @ drop (nat j) ?ws"
  let ?I = "\<lambda>j t. t = zone\<lparr>arrays := (arrays zone)[p := ?F j]\<rparr>"
  have init: "?I lo zone" using p by simp
  have step: "\<exists>t'. body j t = Inr t' \<and> ?I (j + 1) t'" if j: "lo \<le> j" "j < n" and t: "?I j t" for j t
  proof -
    have jl: "nat j < length ?ws" "nat lo \<le> nat j" using j lo n by simp_all
    have len: "length (?F j) = length ?ws" using jl by simp
    have tail: "\<forall>k. nat j \<le> k \<and> k < length (?F j) \<longrightarrow> ?F j ! k = ?ws ! k"
      using jl by (auto simp: nth_append simp del: append_assoc)
    have "nat (j + 1) = Suc (nat j)" using j lo by simp
    then show ?thesis
      using body[OF j len tail] t write_step_list[OF jl, of g] by simp
  qed
  from for_loop_invariant[of ?I, OF init lo(2) step]
  show ?thesis by auto
qed

lemma wf_parts:
  fixes zone :: "'a::len word Zone"
  assumes "wf zone b"
  shows "data' b < length (arrays zone)"
    and "int (length (arrays zone ! data' b)) = data_length' b"
    and "int (length (words zone b)) = data_length' b"
    and "0 \<le> data_length' b"
    and "nat (data_length' b) = length (words zone b)"
  using assms by (auto simp: wf_def words_def)

lemma map_upt_zip:
  assumes "length xs \<le> length ys"
  shows "map (\<lambda>k. f (xs ! k) (ys ! k)) [0..<length xs] = map2 f xs ys"
  using assms by (intro nth_equalityI) simp_all

lemma zero_loop:
  fixes zone :: "'w::zero Zone"
  assumes "p < length (arrays zone)" "0 \<le> lo" "lo \<le> n" "n \<le> int (length (arrays zone ! p))"
  shows "for_loop lo n (\<lambda>i z. wr z p i 0) zone =
         Inr (zone\<lparr>arrays := (arrays zone)[p :=
            take (nat lo) (arrays zone ! p) @ replicate (nat n - nat lo) 0 @ drop (nat n) (arrays zone ! p)]\<rparr>)"
proof -
  have "for_loop lo n (\<lambda>i z. wr z p i 0) zone =
         Inr (zone\<lparr>arrays := (arrays zone)[p :=
            take (nat lo) (arrays zone ! p) @ map (\<lambda>_. 0) [nat lo..<nat n] @ drop (nat n) (arrays zone ! p)]\<rparr>)"
    using assms by (intro write_loop) (simp_all add: wr_def)
  then show ?thesis by (simp add: map_replicate_const)
qed

lemma copy_loop:
  fixes zone :: "'w Zone"
  assumes "p < length (arrays zone)" "q < length (arrays zone)" "0 \<le> n"
    "n \<le> int (length (arrays zone ! p))" "n \<le> int (length (arrays zone ! q))"
  shows "for_loop 0 n (\<lambda>i z. case rd z q i of Inl e \<Rightarrow> Inl e | Inr v \<Rightarrow> wr z p i v) zone =
         Inr (zone\<lparr>arrays := (arrays zone)[p :=
            take (nat n) (arrays zone ! q) @ drop (nat n) (arrays zone ! p)]\<rparr>)"
proof -
  have "for_loop 0 n (\<lambda>i z. case rd z q i of Inl e \<Rightarrow> Inl e | Inr v \<Rightarrow> wr z p i v) zone =
         Inr (zone\<lparr>arrays := (arrays zone)[p :=
            take (nat 0) (arrays zone ! p) @ map (\<lambda>k. arrays zone ! q ! k) [nat 0..<nat n]
              @ drop (nat n) (arrays zone ! p)]\<rparr>)"
    using assms by (intro write_loop) (auto simp: wr_def rd_def nth_list_update)
  moreover have "map (\<lambda>k. arrays zone ! q ! k) [0..<nat n] = take (nat n) (arrays zone ! q)"
    using assms by (intro nth_equalityI) simp_all
  ultimately show ?thesis by simp
qed

lemma binop_loop:
  fixes zone :: "'w Zone"
  assumes "p < length (arrays zone)" "q < length (arrays zone)"
    "int (length (arrays zone ! p)) = n" "n \<le> int (length (arrays zone ! q))"
  shows "for_loop 0 n
           (\<lambda>i z. case rd z q i of Inl e \<Rightarrow> Inl e | Inr y \<Rightarrow> modify z p i (\<lambda>x. f x y)) zone =
         Inr (zone\<lparr>arrays := (arrays zone)[p := map2 f (arrays zone ! p) (arrays zone ! q)]\<rparr>)"
proof -
  let ?g = "\<lambda>k. f (arrays zone ! p ! k) (arrays zone ! q ! k)"
  have "for_loop 0 n
           (\<lambda>i z. case rd z q i of Inl e \<Rightarrow> Inl e | Inr y \<Rightarrow> modify z p i (\<lambda>x. f x y)) zone =
         Inr (zone\<lparr>arrays := (arrays zone)[p :=
            take (nat 0) (arrays zone ! p) @ map ?g [nat 0..<nat n] @ drop (nat n) (arrays zone ! p)]\<rparr>)"
    using assms by (intro write_loop) (auto simp: wr_def rd_def modify_def nth_list_update)
  moreover have "nat n = length (arrays zone ! p)" using assms by auto
  ultimately show ?thesis using assms by (simp add: map_upt_zip)
qed

lemma SizeFor_ge1: "0 \<le> len \<Longrightarrow> 1 \<le> SizeFor TYPE('a::len) len"
  using kDataBits_pos[where 'a='a]
  by (cases "len = 0") (simp_all add: SizeFor_def c_div_nonneg pos_imp_zdiv_nonneg_iff)

lemma SizeFor_mono: "SizeFor TYPE('a::len) a \<le> SizeFor TYPE('a) b" if "0 \<le> a" "a \<le> b"
proof (cases "a = 0")
  case True
  then show ?thesis using SizeFor_ge1[of b, where 'a='a] that by (simp add: SizeFor_def)
next
  case False
  then show ?thesis using that kDataBits_pos[where 'a='a] by (simp add: SizeFor_pos zdiv_mono1)
qed

lemma Clear_eq:
  fixes zone :: "'a::len word Zone"
  assumes "wf zone b"
  shows "Clear b zone =
         Inr (zone\<lparr>arrays := (arrays zone)[data' b := replicate (length (words zone b)) 0]\<rparr>)"
  using wf_parts[OF assms] zero_loop[of "data' b" zone 0 "data_length' b"]
  by (simp add: Clear_def words_def)

lemma BitVector_new_eq:
  fixes zone :: "'a::len word Zone"
  assumes "0 \<le> len"
  shows "BitVector_new len zone =
         Inr (\<lparr>length' = len, data_length' = SizeFor TYPE('a) len, data' = length (arrays zone)\<rparr>,
              zone\<lparr>arrays := arrays zone @ [replicate (nat (SizeFor TYPE('a) len)) 0]\<rparr>)"
proof -
  let ?n = "SizeFor TYPE('a) len"
  let ?t = "\<lparr>length' = len, data_length' = ?n, data' = length (arrays zone)\<rparr>"
  let ?z1 = "zone\<lparr>arrays := arrays zone @ [map (fresh zone) [0..<nat ?n]]\<rparr>"
  have "wf ?z1 ?t"
    using assms SizeFor_ge1[OF assms, where 'a='a] by (simp add: wf_def)
  from Clear_eq[OF this] show ?thesis
    using assms by (simp add: BitVector_new_def NewArray_def words_def Let_def)
qed

lemma CopyFrom_data_eq:
  fixes zone :: "'a::len word Zone"
  assumes "wf zone b" "q < length (arrays zone)" "int (length (arrays zone ! q)) = m"
    "m \<le> data_length' b" "q \<noteq> data' b"
  shows "CopyFrom_data b q m zone =
         Inr (zone\<lparr>arrays := (arrays zone)[data' b :=
                arrays zone ! q @ replicate (length (words zone b) - nat m) 0]\<rparr>)"
proof -
  note w = wf_parts[OF assms(1)]
  let ?p = "data' b"
  let ?z1 = "zone\<lparr>arrays := (arrays zone)[?p := take (nat m) (arrays zone ! q) @ drop (nat m) (arrays zone ! ?p)]\<rparr>"
  have m0: "0 \<le> m" using assms(3) by auto
  have 1: "for_loop 0 m (\<lambda>i z. case rd z q i of Inl e \<Rightarrow> Inl e | Inr v \<Rightarrow> wr z ?p i v) zone = Inr ?z1"
    using assms w m0 by (intro copy_loop) simp_all
  have 2: "for_loop m (data_length' b) (\<lambda>i z. wr z ?p i 0) ?z1 =
        Inr (?z1\<lparr>arrays := (arrays ?z1)[?p :=
            take (nat m) (arrays ?z1 ! ?p) @ replicate (nat (data_length' b) - nat m) 0
              @ drop (nat (data_length' b)) (arrays ?z1 ! ?p)]\<rparr>)"
    using assms w m0 by (intro zero_loop) simp_all
  have "nat m = length (arrays zone ! q)" using assms(3) by auto
  then show ?thesis
    using assms w 1 2 by (simp add: CopyFrom_data_def words_def)
qed

lemma BitVector_copy_eq:
  fixes zone :: "'a::len word Zone"
  assumes "wf zone other"
  shows "BitVector_copy other zone =
         Inr (\<lparr>length' = length' other, data_length' = data_length' other, data' = length (arrays zone)\<rparr>,
              zone\<lparr>arrays := arrays zone @ [words zone other]\<rparr>)"
proof -
  note w = wf_parts[OF assms]
  let ?n = "SizeFor TYPE('a) (length' other)"
  have n: "?n = data_length' other" using assms by (simp add: wf_def)
  let ?t = "\<lparr>length' = length' other, data_length' = ?n, data' = length (arrays zone)\<rparr>"
  let ?z1 = "zone\<lparr>arrays := arrays zone @ [map (fresh zone) [0..<nat ?n]]\<rparr>"
  have wf1: "wf ?z1 ?t"
    using assms w by (simp add: wf_def)
  have "CopyFrom_data ?t (data' other) (data_length' other) ?z1 =
         Inr (?z1\<lparr>arrays := (arrays ?z1)[data' ?t :=
                arrays ?z1 ! data' other @ replicate (length (words ?z1 ?t) - nat (data_length' other)) 0]\<rparr>)"
    using w n by (intro CopyFrom_data_eq[OF wf1]) (simp_all add: nth_append)
  then show ?thesis
    using w n by (simp add: BitVector_copy_def NewArray_def CopyFrom_def words_def nth_append Let_def)
qed

lemma CopyFrom_data_fields:
  "data' a = data' b \<Longrightarrow> data_length' a = data_length' b \<Longrightarrow>
   CopyFrom_data a q m zone = CopyFrom_data b q m zone"
  unfolding CopyFrom_data_def by (erule ssubst, erule ssubst) (rule refl)

lemma Resize_grow_eq:
  fixes zone :: "'a::len word Zone"
  assumes "wf zone b" "length' b < new_length" "data_length' b < SizeFor TYPE('a) new_length"
  shows "Resize b new_length zone =
         Inr (\<lparr>length' = new_length, data_length' = SizeFor TYPE('a) new_length, data' = length (arrays zone)\<rparr>,
              zone\<lparr>arrays := arrays zone @
                [words zone b @ replicate (nat (SizeFor TYPE('a) new_length) - length (words zone b)) 0]\<rparr>)"
proof -
  note w = wf_parts[OF assms(1)]
  let ?n = "SizeFor TYPE('a) new_length"
  let ?t = "\<lparr>length' = new_length, data_length' = ?n, data' = length (arrays zone)\<rparr>"
  let ?z1 = "zone\<lparr>arrays := arrays zone @ [map (fresh zone) [0..<nat ?n]]\<rparr>"
  let ?z2 = "zone\<lparr>arrays := arrays zone @ [words zone b @ replicate (nat ?n - length (words zone b)) 0]\<rparr>"
  have wf1: "wf ?z1 ?t"
    using assms w by (simp add: wf_def)
  have "CopyFrom_data ?t (data' b) (data_length' b) ?z1 =
         Inr (?z1\<lparr>arrays := (arrays ?z1)[data' ?t :=
                arrays ?z1 ! data' b @ replicate (length (words ?z1 ?t) - nat (data_length' b)) 0]\<rparr>)"
    using w assms by (intro CopyFrom_data_eq[OF wf1]) (simp_all add: nth_append)
  then have "CopyFrom_data ?t (data' b) (data_length' b) ?z1 = Inr ?z2"
    using w by (simp add: words_def nth_append)
  moreover have "CopyFrom_data (b\<lparr>data' := length (arrays zone), data_length' := ?n\<rparr>)
       (data' b) (data_length' b) ?z1 = CopyFrom_data ?t (data' b) (data_length' b) ?z1"
    by (rule CopyFrom_data_fields) simp_all
  ultimately have "CopyFrom_data (b\<lparr>data' := length (arrays zone), data_length' := ?n\<rparr>)
       (data' b) (data_length' b) ?z1 = Inr ?z2"
    by simp
  then show ?thesis
    using assms by (simp add: Resize_def NewArray_def Let_def)
qed

lemma Resize_same_eq:
  fixes zone :: "'a::len word Zone"
  assumes "length' b < new_length" "\<not> data_length' b < SizeFor TYPE('a) new_length"
  shows "Resize b new_length zone = Inr (b\<lparr>length' := new_length\<rparr>, zone)"
  using assms by (simp add: Resize_def)

lemma AddAll_eq:
  fixes zone :: "'a::len word Zone"
  assumes "wf zone b"
  shows "AddAll b zone =
         Inr (zone\<lparr>arrays := (arrays zone)[data' b := replicate (length (words zone b)) (- 1)]\<rparr>)"
  using wf_parts[OF assms] by (simp add: AddAll_def memset_words_def words_def)

lemma wf_same_length:
  fixes zone :: "'a::len word Zone"
  assumes "wf zone a" "wf zone b" "length' b = length' a"
  shows "length (words zone b) = length (words zone a)" "data_length' b = data_length' a"
  using assms by (auto simp: wf_def words_def)

lemma Union_eq:
  fixes zone :: "'a::len word Zone"
  assumes "wf zone a" "wf zone b" "length' b = length' a"
  shows "Union a b zone =
         Inr (zone\<lparr>arrays := (arrays zone)[data' a := map2 (OR) (words zone a) (words zone b)]\<rparr>)"
  using wf_parts[OF assms(1)] wf_parts[OF assms(2)] wf_same_length[OF assms] assms(3)
    binop_loop[of "data' a" zone "data' b" "data_length' a" "(OR)"]
  by (simp add: Union_def words_def)

lemma Intersect_eq:
  fixes zone :: "'a::len word Zone"
  assumes "wf zone a" "wf zone b" "length' b = length' a"
  shows "Intersect a b zone =
         Inr (zone\<lparr>arrays := (arrays zone)[data' a := map2 (AND) (words zone a) (words zone b)]\<rparr>)"
  using wf_parts[OF assms(1)] wf_parts[OF assms(2)] wf_same_length[OF assms] assms(3)
    binop_loop[of "data' a" zone "data' b" "data_length' a" "(AND)"]
  by (simp add: Intersect_def words_def)

lemma Subtract_eq:
  fixes zone :: "'a::len word Zone"
  assumes "wf zone a" "wf zone b" "length' b = length' a"
  shows "Subtract a b zone =
         Inr (zone\<lparr>arrays := (arrays zone)[data' a := map2 (\<lambda>x y. x AND NOT y) (words zone a) (words zone b)]\<rparr>)"
  using wf_parts[OF assms(1)] wf_parts[OF assms(2)] wf_same_length[OF assms] assms(3)
    binop_loop[of "data' a" zone "data' b" "data_length' a" "\<lambda>x y. x AND NOT y"]
  by (simp add: Subtract_def words_def)

lemma take_Suc_neq:
  assumes "j < length xs" "j < length ys"
  shows "take (Suc j) xs \<noteq> take (Suc j) ys \<longleftrightarrow> take j xs \<noteq> take j ys \<or> xs ! j \<noteq> ys ! j"
  using assms by (simp add: take_Suc_conv_app_nth)

lemma changed_loop:
  fixes zone :: "'w Zone"
  assumes p: "p < length (arrays zone)" and q: "q < length (arrays zone)"
    and n: "int (length (arrays zone ! p)) = n" "n \<le> int (length (arrays zone ! q))"
  shows "for_loop 0 n
           (\<lambda>i (changed, z).
              case rd z p i of
                Inl e \<Rightarrow> Inl e
              | Inr old_data \<Rightarrow>
                  (case rd z q i of
                     Inl e \<Rightarrow> Inl e
                   | Inr y \<Rightarrow>
                       (case wr z p i (f old_data y) of
                          Inl e \<Rightarrow> Inl e
                        | Inr z1 \<Rightarrow>
                            (case rd z1 p i of
                               Inl e \<Rightarrow> Inl e
                             | Inr new_data \<Rightarrow>
                                 Inr (if new_data \<noteq> old_data then True else changed, z1)))))
           (False, zone) =
         Inr (map2 f (arrays zone ! p) (arrays zone ! q) \<noteq> arrays zone ! p,
              zone\<lparr>arrays := (arrays zone)[p := map2 f (arrays zone ! p) (arrays zone ! q)]\<rparr>)"
    (is "for_loop 0 n ?body _ = _")
proof -
  let ?ws = "arrays zone ! p" and ?wq = "arrays zone ! q"
  let ?M = "map2 f ?ws ?wq"
  let ?I = "\<lambda>j (s :: bool \<times> 'w Zone). 0 \<le> j \<and> j \<le> n \<and>
      s = (take (nat j) ?M \<noteq> take (nat j) ?ws,
           zone\<lparr>arrays := (arrays zone)[p := take (nat j) ?M @ drop (nat j) ?ws]\<rparr>)"
  have lM: "length ?M = length ?ws" using n by simp
  have init: "?I 0 (False, zone)" using n p by simp
  have n0: "0 \<le> n" using n by auto
  have step: "\<exists>t'. ?body j t = Inr t' \<and> ?I (j + 1) t'" if j: "0 \<le> j" "j < n" and t: "?I j t" for j t
  proof -
    have jl: "nat j < length ?ws" "nat j < length ?wq" using j n by auto
    have s: "nat (j + 1) = Suc (nat j)" using j by simp
    let ?cur = "take (nat j) ?M @ drop (nat j) ?ws"
    have cur: "?cur ! nat j = ?ws ! nat j" "length ?cur = length ?ws"
      using jl lM by (simp_all add: nth_append)
    have upd: "?cur[nat j := f (?ws ! nat j) (?wq ! nat j)] = take (Suc (nat j)) ?M @ drop (Suc (nat j)) ?ws"
    proof -
      have "drop (nat j) ?ws = ?ws ! nat j # drop (Suc (nat j)) ?ws"
        using jl by (simp add: Cons_nth_drop_Suc)
      moreover have "length (take (nat j) ?M) = nat j" using jl lM by simp
      moreover have "take (Suc (nat j)) ?M = take (nat j) ?M @ [f (?ws ! nat j) (?wq ! nat j)]"
        using jl lM by (simp add: take_Suc_conv_app_nth)
      ultimately show ?thesis by (simp add: list_update_append)
    qed
    let ?zj = "zone\<lparr>arrays := (arrays zone)[p := ?cur]\<rparr>"
    let ?v = "f (?ws ! nat j) (?wq ! nat j)"
    let ?zn = "zone\<lparr>arrays := (arrays zone)[p := take (Suc (nat j)) ?M @ drop (Suc (nat j)) ?ws]\<rparr>"
    have r1: "rd ?zj p j = Inr (?ws ! nat j)"
      using p cur jl j by (simp add: rd_def nat_less_iff)
    have r2: "rd ?zj q j = Inr (?wq ! nat j)"
      using p q cur jl j by (cases "q = p") (simp_all add: rd_def nat_less_iff)
    have w1: "wr ?zj p j ?v = Inr ?zn"
      using p cur jl j upd by (simp add: wr_def nat_less_iff)
    have r3: "rd ?zn p j = Inr ?v"
      using p jl j lM by (simp add: rd_def nat_less_iff nth_append take_Suc_conv_app_nth)
    have ch: "(take (Suc (nat j)) ?M \<noteq> take (Suc (nat j)) ?ws) =
        (if ?v \<noteq> ?ws ! nat j then True else take (nat j) ?M \<noteq> take (nat j) ?ws)"
      using jl lM take_Suc_neq[of "nat j" ?M ?ws] by auto
    have t': "t = (take (nat j) ?M \<noteq> take (nat j) ?ws, ?zj)" using t by simp
    have "?body j t = Inr (take (Suc (nat j)) ?M \<noteq> take (Suc (nat j)) ?ws, ?zn)"
      unfolding t' by (simp only: prod.case r1 r2 w1 r3 sum.case ch)
    then show ?thesis using j s by simp
  qed
  from for_loop_invariant[of ?I 0 "(False, zone)" n ?body, OF init n0 step]
  obtain t where t: "for_loop 0 n ?body (False, zone) = Inr t" "?I n t" by blast
  have "nat n = length ?ws" using n by auto
  with t lM show ?thesis by simp
qed

lemma UnionIsChanged_eq:
  fixes zone :: "'a::len word Zone"
  assumes "wf zone a" "wf zone b" "length' b = length' a"
  shows "UnionIsChanged a b zone =
         Inr (map2 (OR) (words zone a) (words zone b) \<noteq> words zone a,
              zone\<lparr>arrays := (arrays zone)[data' a := map2 (OR) (words zone a) (words zone b)]\<rparr>)"
  using wf_parts[OF assms(1)] wf_parts[OF assms(2)] wf_same_length[OF assms] assms(3)
    changed_loop[of "data' a" zone "data' b" "data_length' a" "(OR)"]
  by (simp add: UnionIsChanged_def words_def)

lemma IntersectIsChanged_eq:
  fixes zone :: "'a::len word Zone"
  assumes "wf zone a" "wf zone b" "length' b = length' a"
  shows "IntersectIsChanged a b zone =
         Inr (map2 (AND) (words zone a) (words zone b) \<noteq> words zone a,
              zone\<lparr>arrays := (arrays zone)[data' a := map2 (AND) (words zone a) (words zone b)]\<rparr>)"
  using wf_parts[OF assms(1)] wf_parts[OF assms(2)] wf_same_length[OF assms] assms(3)
    changed_loop[of "data' a" zone "data' b" "data_length' a" "(AND)"]
  by (simp add: IntersectIsChanged_def words_def)

lemma IsEmpty_from_eq:
  fixes zone :: "'a::len word Zone"
  assumes "wf zone b" "0 \<le> i" "i \<le> data_length' b"
  shows "IsEmpty_from i b zone = Inr (\<forall>x \<in> set (drop (nat i) (words zone b)). x = 0)"
  using assms
proof (induction "nat (data_length' b - i)" arbitrary: i)
  case 0
  then show ?case using wf_parts[OF assms(1)] by (simp add: IsEmpty_from.simps)
next
  case (Suc k)
  note w = wf_parts[OF assms(1)]
  have lt: "i < data_length' b" using Suc.hyps(2) by simp
  have il: "nat i < length (words zone b)" using lt Suc.prems w by simp
  have d: "drop (nat i) (words zone b) = words zone b ! nat i # drop (nat (i + 1)) (words zone b)"
    using il Suc.prems by (simp add: Cons_nth_drop_Suc nat_add_distrib)
  have ih: "IsEmpty_from (i + 1) b zone = Inr (\<forall>x \<in> set (drop (nat (i + 1)) (words zone b)). x = 0)"
    using Suc.hyps(2) Suc.prems lt by (intro Suc.hyps(1)) simp_all
  have r: "rd zone (data' b) i = Inr (words zone b ! nat i)"
    using lt il w Suc.prems by (simp add: rd_def words_def)
  show ?case
    using lt by (subst IsEmpty_from.simps) (simp add: r ih d)
qed

lemma IsEmpty_eq:
  fixes zone :: "'a::len word Zone"
  assumes "wf zone b"
  shows "IsEmpty b zone = Inr (\<forall>x \<in> set (words zone b). x = 0)"
  using IsEmpty_from_eq[OF assms, of 0] wf_parts[OF assms] by (simp add: IsEmpty_def)

lemma Equals_from_eq:
  fixes zone :: "'a::len word Zone"
  assumes "wf zone a" "wf zone b" "length' b = length' a" "0 \<le> i" "i \<le> data_length' a"
  shows "Equals_from i a b zone = Inr (drop (nat i) (words zone a) = drop (nat i) (words zone b))"
  using assms
proof (induction "nat (data_length' a - i)" arbitrary: i)
  case 0
  then show ?case
    using wf_parts[OF assms(1)] wf_parts[OF assms(2)] wf_same_length[OF assms(1-3)]
    by (simp add: Equals_from.simps)
next
  case (Suc k)
  note w = wf_parts[OF assms(1)] wf_parts[OF assms(2)] wf_same_length[OF assms(1-3)]
  have lt: "i < data_length' a" using Suc.hyps(2) by simp
  have il: "nat i < length (words zone a)" "nat i < length (words zone b)"
    using lt Suc.prems w by simp_all
  have d: "drop (nat i) (words zone a) = words zone a ! nat i # drop (nat (i + 1)) (words zone a)"
    "drop (nat i) (words zone b) = words zone b ! nat i # drop (nat (i + 1)) (words zone b)"
    using il Suc.prems by (simp_all add: Cons_nth_drop_Suc nat_add_distrib)
  have ih: "Equals_from (i + 1) a b zone =
      Inr (drop (nat (i + 1)) (words zone a) = drop (nat (i + 1)) (words zone b))"
    using Suc.hyps(2) Suc.prems lt by (intro Suc.hyps(1)) simp_all
  have r: "rd zone (data' a) i = Inr (words zone a ! nat i)"
    "rd zone (data' b) i = Inr (words zone b ! nat i)"
    using lt il w Suc.prems by (simp_all add: rd_def words_def)
  show ?case
    using lt by (subst Equals_from.simps) (simp add: r ih d)
qed

lemma Equals_eq:
  fixes zone :: "'a::len word Zone"
  assumes "wf zone a" "wf zone b" "length' b = length' a"
  shows "Equals a b zone = Inr (words zone a = words zone b)"
  using Equals_from_eq[OF assms, of 0] wf_parts[OF assms(1)] by (simp add: Equals_def)

section \<open>Resizing\<close>

lemma nat_position:
  assumes "0 \<le> i"
  shows "nat (i div kDataBits TYPE('a::len)) = nat i div LENGTH('a)"
    and "nat (i mod kDataBits TYPE('a)) = nat i mod LENGTH('a)"
  using assms by (simp_all add: kDataBits_def nat_div_distrib nat_mod_distrib)

lemma wf_index_nat:
  fixes zone :: "'a::len word Zone"
  assumes "wf zone b" "0 \<le> i" "i < length' b"
  shows "nat i < length (words zone b) * LENGTH('a)"
proof -
  have "nat i div LENGTH('a) < length (words zone b)"
    using wf_index(1)[OF assms] nat_position(1)[OF assms(2), where 'a='a] by simp
  then show ?thesis by (simp add: div_less_iff_less_mult)
qed

lemma Contains_bit_at:
  fixes zone :: "'a::len word Zone"
  assumes "wf zone b" "0 \<le> i" "i < length' b"
  shows "Contains b i zone = Inr (bit_at (words zone b) (nat i))"
  using wf_index_nat[OF assms]
  by (simp add: Contains_bit[OF assms] bit_at_def nat_position[OF assms(2)])

lemma PaddingZero_iff:
  "PaddingZero zone b \<longleftrightarrow> (\<forall>p. nat (length' b) \<le> p \<longrightarrow> \<not> bit_at (words zone b) p)"
  by (auto simp: PaddingZero_def bit_at_def)

lemma bit_at_append:
  fixes ws :: "'a::len word list"
  shows "bit_at (ws @ vs) p \<longleftrightarrow>
    (if p < length ws * LENGTH('a) then bit_at ws p else bit_at vs (p - length ws * LENGTH('a)))"
proof (cases "p < length ws * LENGTH('a)")
  case True
  then have "p div LENGTH('a) < length ws" by (simp add: less_mult_imp_div_less)
  with True show ?thesis by (simp add: bit_at_def nth_append add_mult_distrib)
next
  case False
  then have ge: "length ws * LENGTH('a) \<le> p" by simp
  then have "length ws \<le> p div LENGTH('a)"
    by (simp add: less_eq_div_iff_mult_less_eq)
  moreover obtain r where r: "p = r + length ws * LENGTH('a)"
    using ge by (metis le_add_diff_inverse2)
  ultimately show ?thesis
    using False by (auto simp: bit_at_def nth_append add_mult_distrib)
qed

lemma bit_at_beyond: "\<not> p < length ws * LENGTH('a) \<Longrightarrow> \<not> bit_at (ws :: 'a::len word list) p"
  by (simp add: bit_at_def)

lemma bit_at_zeros [simp]: "\<not> bit_at (replicate n (0::'a::len word)) p"
  by (simp add: bit_at_def less_mult_imp_div_less)

lemma bit_at_ones:
  "bit_at (replicate n (- 1 :: 'a::len word)) p \<longleftrightarrow> p < n * LENGTH('a)"
  by (auto simp: bit_at_def less_mult_imp_div_less)

lemma Resize_result:
  fixes zone :: "'a::len word Zone"
  assumes "wf zone b" "length' b < new_length"
  shows "\<exists>b2 z2. Resize b new_length zone = Inr (b2, z2) \<and> wf z2 b2 \<and> length' b2 = new_length \<and>
           words z2 b2 = words zone b @ replicate (nat (SizeFor TYPE('a) new_length) - length (words zone b)) 0 \<and>
           length (arrays zone) \<le> length (arrays z2) \<and>
           (\<forall>q < length (arrays zone). arrays z2 ! q = arrays zone ! q)"
proof (cases "data_length' b < SizeFor TYPE('a) new_length")
  case True
  note w = wf_parts[OF assms(1)]
  have "0 \<le> new_length" using assms by (simp add: wf_def)
  then show ?thesis
    using True w assms
    by (simp add: Resize_grow_eq[OF assms True] wf_def words_def nth_append)
next
  case False
  note w = wf_parts[OF assms(1)]
  have "SizeFor TYPE('a) (length' b) \<le> SizeFor TYPE('a) new_length"
    using assms by (intro SizeFor_mono) (simp_all add: wf_def)
  then have eq: "SizeFor TYPE('a) new_length = data_length' b"
    using False assms(1) by (simp add: wf_def)
  show ?thesis
    using assms w eq by (simp add: Resize_same_eq[OF assms(2) False] wf_def words_def)
qed

text \<open>
  C2, as the code has it. \<^verbatim>\<open>Resize(L2)\<close> with \<open>L2 > L1\<close> returns, the length is \<open>L2\<close>, and
  \<^verbatim>\<open>Contains(i)\<close> answers as before for every \<open>i < L1\<close>. A new index \<open>L1 \<le> i < L2\<close> reads the
  bit that the old words held at that position: it is unset whenever the padding of the
  vector was zero before the call, and only then for certain.
\<close>

theorem resize_keeps_bits:
  fixes zone :: "'a::len word Zone"
  assumes "wf zone b" and "length' b < new_length"
  shows "\<exists>b2 z2. Resize b new_length zone = Inr (b2, z2) \<and> length' b2 = new_length \<and>
           (\<forall>i. 0 \<le> i \<and> i < length' b \<longrightarrow> Contains b2 i z2 = Contains b i zone) \<and>
           (\<forall>i. length' b \<le> i \<and> i < new_length \<longrightarrow>
                Contains b2 i z2 = Inr (bit_at (words zone b) (nat i))) \<and>
           (PaddingZero zone b \<longrightarrow>
              (\<forall>i. length' b \<le> i \<and> i < new_length \<longrightarrow> Contains b2 i z2 = Inr False))"
proof -
  from Resize_result[OF assms] obtain b2 z2 where
    r: "Resize b new_length zone = Inr (b2, z2)" "wf z2 b2" "length' b2 = new_length"
    and ws: "words z2 b2 = words zone b @ replicate (nat (SizeFor TYPE('a) new_length) - length (words zone b)) 0"
    by blast
  have l0: "0 \<le> length' b" using assms(1) by (simp add: wf_def)
  have old: "Contains b2 i z2 = Contains b i zone" if i: "0 \<le> i" "i < length' b" for i
  proof -
    have "nat i < length (words zone b) * LENGTH('a)"
      by (rule wf_index_nat[OF assms(1) i])
    then show ?thesis
      using i assms(2) r
      by (simp add: Contains_bit_at[OF assms(1) i] Contains_bit_at[OF r(2)] ws bit_at_append)
  qed
  have new: "Contains b2 i z2 = Inr (bit_at (words zone b) (nat i))"
    if i: "length' b \<le> i" "i < new_length" for i
    using i l0 r
    by (cases "nat i < length (words zone b) * LENGTH('a)")
      (simp_all add: Contains_bit_at[OF r(2)] ws bit_at_append bit_at_beyond)
  have zero: "Contains b2 i z2 = Inr False"
    if "PaddingZero zone b" and i: "length' b \<le> i" "i < new_length" for i
    using that l0 new[OF i] by (simp add: PaddingZero_iff)
  show ?thesis using r old new zero by blast
qed

text \<open>
  C3. For a length \<open>L1\<close> that is not a multiple of the word width, \<^verbatim>\<open>AddAll()\<close> sets the
  padding bits, those at positions from \<open>L1\<close> on in the words. A following \<^verbatim>\<open>Resize(L2)\<close> with
  \<open>L2 > L1\<close> keeps all the old words, padding included, as the first words of the vector,
  and \<^verbatim>\<open>Contains(i)\<close> is true for every \<open>i\<close> from \<open>L1\<close> up to the smaller of \<open>L2\<close> and the
  number of bits of the old words.
\<close>

theorem addall_then_resize:
  fixes zone :: "'a::len word Zone"
  assumes "wf zone b" and "length' b mod kDataBits TYPE('a) \<noteq> 0" and "length' b < new_length"
  shows "\<exists>z1 b2 z2. AddAll b zone = Inr z1 \<and>
           (\<forall>p. nat (length' b) \<le> p \<and> p < length (words z1 b) * LENGTH('a) \<longrightarrow> bit_at (words z1 b) p) \<and>
           Resize b new_length z1 = Inr (b2, z2) \<and>
           take (length (words z1 b)) (words z2 b2) = words z1 b \<and>
           (\<forall>i. length' b \<le> i \<and> i < min new_length (data_length' b * kDataBits TYPE('a)) \<longrightarrow>
                Contains b2 i z2 = Inr True)"
proof -
  note w = wf_parts[OF assms(1)]
  define z1 where "z1 = zone\<lparr>arrays := (arrays zone)[data' b := replicate (length (words zone b)) (- 1)]\<rparr>"
  have a: "AddAll b zone = Inr z1" by (simp add: AddAll_eq[OF assms(1)] z1_def)
  have wf1: "wf z1 b" using assms(1) w by (simp add: z1_def wf_set_words words_def)
  have w1: "words z1 b = replicate (length (words zone b)) (- 1)"
    using w by (simp add: z1_def words_set_words)
  from Resize_result[OF wf1 assms(3)] obtain b2 z2 where
    r: "Resize b new_length z1 = Inr (b2, z2)" "wf z2 b2" "length' b2 = new_length"
    and ws: "words z2 b2 = words z1 b @ replicate (nat (SizeFor TYPE('a) new_length) - length (words z1 b)) 0"
    by blast
  have l0: "0 \<le> length' b" using assms(1) by (simp add: wf_def)
  have pad: "bit_at (words z1 b) p" if "p < length (words z1 b) * LENGTH('a)" for p
    using that by (simp add: w1 bit_at_ones)
  have set: "Contains b2 i z2 = Inr True"
    if i: "length' b \<le> i" "i < min new_length (data_length' b * kDataBits TYPE('a))" for i
  proof -
    have "i < int (length (words zone b)) * int LENGTH('a)"
      using i w by (simp add: kDataBits_def)
    then have "nat i < length (words zone b) * LENGTH('a)"
      using i l0 by (simp add: nat_less_iff)
    then show ?thesis
      using i l0 r by (simp add: Contains_bit_at[OF r(2)] ws bit_at_append w1 bit_at_ones)
  qed
  show ?thesis using a r pad set by (auto simp: ws)
qed

lemmas example_defs = zone0_def zone10_def zone259_def zoneFF_def vec10_def vec20_def

lemmas eval_defs = SizeFor_def c_div_def c_mod_def kDataBits_def kOne_def rd_def wr_def modify_def
  NewArray_def for_loop.simps wf_def words_def

lemma wf_259: "wf zone259 vec10"
  by (simp add: example_defs eval_defs)

lemma bit_548: "bit (548 :: 64 word) p \<Longrightarrow> p < 10"
proof -
  assume "bit (548 :: 64 word) p"
  moreover have "take_bit 10 (548 :: 64 word) = 548" by simp
  ultimately have "bit (take_bit 10 (548 :: 64 word)) p" by simp
  then show ?thesis unfolding bit_take_bit_iff by (rule conjunct1)
qed

lemma PaddingZero_259: "PaddingZero zone259 vec10"
proof -
  have "\<not> bit_at [548 :: 64 word] p" if "10 \<le> p" for p
  proof
    assume "bit_at [548 :: 64 word] p"
    then have "p < 64" "bit (548 :: 64 word) p" by (auto simp: bit_at_def)
    with bit_548[of p] that show False by simp
  qed
  then show ?thesis
    by (simp add: PaddingZero_def example_defs words_def)
qed

text \<open>
  C2 as it is stated fails after \<^verbatim>\<open>AddAll\<close>: the vector of length 10 with every word
  filled, resized to 20 (within the same word), contains 15.
\<close>

theorem resize_new_bits_counterexample:
  "wf zone10 vec10 \<and> AddAll vec10 zone10 = Inr zoneFF \<and> wf zoneFF vec10 \<and>
   Resize vec10 20 zoneFF = Inr (vec20, zoneFF) \<and> Contains vec20 15 zoneFF = Inr True"
  by (simp add: example_defs eval_defs AddAll_def memset_words_def Resize_def Contains_def)

theorem resize_keeps_bits_witness:
  "wf zone259 vec10 \<and> length' vec10 < 100 \<and> PaddingZero zone259 vec10 \<and>
   (\<exists>b2 z2. Resize vec10 100 zone259 = Inr (b2, z2) \<and> length' b2 = 100 \<and>
      Contains b2 5 z2 = Contains vec10 5 zone259 \<and> Contains b2 50 z2 = Inr False)"
proof -
  have h: "length' vec10 < 100" by (simp add: vec10_def)
  from resize_keeps_bits [OF wf_259 h] PaddingZero_259
  obtain b2 z2 where r: "Resize vec10 100 zone259 = Inr (b2, z2)" "length' b2 = 100"
    and o: "\<forall>i. 0 \<le> i \<and> i < length' vec10 \<longrightarrow> Contains b2 i z2 = Contains vec10 i zone259"
    and n: "\<forall>i. length' vec10 \<le> i \<and> i < 100 \<longrightarrow> Contains b2 i z2 = Inr False"
    by blast
  from o have "Contains b2 5 z2 = Contains vec10 5 zone259" by (simp add: vec10_def)
  moreover from n have "Contains b2 50 z2 = Inr False" by (simp add: vec10_def)
  ultimately show ?thesis using wf_259 h PaddingZero_259 r by blast
qed

theorem addall_then_resize_witness:
  "wf zone259 vec10 \<and> length' vec10 mod kDataBits TYPE(64) \<noteq> 0 \<and> length' vec10 < 100 \<and>
   (\<exists>z1 b2 z2. AddAll vec10 zone259 = Inr z1 \<and> bit_at (words z1 vec10) 10 \<and>
      Resize vec10 100 z1 = Inr (b2, z2) \<and> Contains b2 15 z2 = Inr True \<and>
      Contains b2 63 z2 = Inr True)"
proof -
  have h: "length' vec10 mod kDataBits TYPE(64) \<noteq> 0" "length' vec10 < 100"
    by (simp_all add: vec10_def kDataBits_def)
  from addall_then_resize [OF wf_259 h]
  obtain z1 b2 z2 where a: "AddAll vec10 zone259 = Inr z1"
    and p: "\<forall>p. nat (length' vec10) \<le> p \<and> p < length (words z1 vec10) * LENGTH(64) \<longrightarrow> bit_at (words z1 vec10) p"
    and r: "Resize vec10 100 z1 = Inr (b2, z2)"
    and c: "\<forall>i. length' vec10 \<le> i \<and> i < min 100 (data_length' vec10 * kDataBits TYPE(64)) \<longrightarrow>
                Contains b2 i z2 = Inr True"
    by blast
  have "z1 = zoneFF" using a
    by (simp add: example_defs eval_defs AddAll_def memset_words_def)
  with p have "bit_at (words z1 vec10) 10" by (simp add: example_defs eval_defs)
  moreover from c have "Contains b2 15 z2 = Inr True" "Contains b2 63 z2 = Inr True"
    by (simp_all add: vec10_def kDataBits_def)
  ultimately show ?thesis using wf_259 h a r by blast
qed

section \<open>Set algebra\<close>

lemma or_words:
  fixes x y z :: "'a::len word"
  shows "(x OR y) OR z = x OR (y OR z)"
    and "(x OR y) OR (x OR y) = x OR (y OR x)"
    and "(x OR x) OR z = (x OR z) OR (x OR z)"
  by (rule bit_eqI; auto simp: bit_or_iff)+

lemma and_words:
  fixes x y z :: "'a::len word"
  shows "(x AND y) AND z = x AND (y AND z)"
    and "(x AND y) AND (x AND y) = x AND (y AND x)"
    and "(x AND x) AND z = (x AND z) AND (x AND z)"
  by (rule bit_eqI; auto simp: bit_and_iff)+

lemma assoc_with_sharing:
  fixes wa wb wc :: "'w list"
  assumes len: "length wb = length wa" "length wc = length wa"
    and same: "p = q \<Longrightarrow> wc = wa" "q = r \<Longrightarrow> wa = wb"
    and f: "\<And>x y z. f (f x y) z = f x (f y z)" "\<And>x y. f (f x y) (f x y) = f x (f y x)"
      "\<And>x z. f (f x x) z = f (f x z) (f x z)"
  shows "map2 f (map2 f wa wb) (if p = q then map2 f wa wb else wc) =
         map2 f (if q = r then map2 f wb wc else wa) (map2 f wb wc)"
proof (rule nth_equalityI)
  show "length (map2 f (map2 f wa wb) (if p = q then map2 f wa wb else wc)) =
        length (map2 f (if q = r then map2 f wb wc else wa) (map2 f wb wc))"
    using len by simp
next
  fix i
  assume "i < length (map2 f (map2 f wa wb) (if p = q then map2 f wa wb else wc))"
  then have i: "i < length wa" "i < length wb" "i < length wc" using len by (simp_all split: if_splits)
  have n: "map2 f xs ys ! i = f (xs ! i) (ys ! i)" if "i < length xs" "i < length ys" for xs ys :: "'w list"
    using that by simp
  have ab: "map2 f wa wb ! i = f (wa ! i) (wb ! i)" and bc: "map2 f wb wc ! i = f (wb ! i) (wc ! i)"
    using i by simp_all
  have lab: "i < length (map2 f wa wb)" and lbc: "i < length (map2 f wb wc)" using i by simp_all
  show "map2 f (map2 f wa wb) (if p = q then map2 f wa wb else wc) ! i =
        map2 f (if q = r then map2 f wb wc else wa) (map2 f wb wc) ! i"
  proof (cases "p = q")
    case pq: True
    have wc: "wc = wa" using pq by (rule same(1))
    show ?thesis
    proof (cases "q = r")
      case True
      then have "wa = wb" by (rule same(2))
      with wc pq True show ?thesis by simp
    next
      case False
      have "f (f (wa ! i) (wb ! i)) (f (wa ! i) (wb ! i)) = f (wa ! i) (f (wb ! i) (wa ! i))"
        by (rule f(2))
      then show ?thesis
        using pq False i lab lbc by (simp add: n ab bc wc)
    qed
  next
    case npq: False
    show ?thesis
    proof (cases "q = r")
      case True
      then have wab: "wb = wa" using same(2) by simp
      have "f (f (wa ! i) (wa ! i)) (wc ! i) = f (f (wa ! i) (wc ! i)) (f (wa ! i) (wc ! i))"
        by (rule f(3))
      then show ?thesis
        using npq True i lab lbc by (simp add: n wab)
    next
      case False
      have "f (f (wa ! i) (wb ! i)) (wc ! i) = f (wa ! i) (f (wb ! i) (wc ! i))"
        by (rule f(1))
      then show ?thesis
        using npq False i lab lbc by (simp add: n ab bc)
    qed
  qed
qed

lemmas abc_defs = zone0_def zoneABC_def vecA_def vecB_def vecC_def vecE_def

lemma wf_ABC: "wf zoneABC vecA" "wf zoneABC vecB" "wf zoneABC vecC" "wf zoneABC vecE"
  by (simp_all add: abc_defs eval_defs)

text \<open>
  C4. For two vectors of equal length, \<^verbatim>\<open>UnionIsChanged\<close> leaves the memory that \<^verbatim>\<open>Union\<close>
  leaves, \<^verbatim>\<open>IntersectIsChanged\<close> the memory that \<^verbatim>\<open>Intersect\<close> leaves, and each returns
  false exactly when the words of the receiver are the same before and after.
\<close>

theorem ischanged_agrees:
  fixes zone :: "'a::len word Zone"
  assumes "wf zone a" and "wf zone b" and "length' b = length' a"
  shows "\<exists>c1 z1 c2 z2.
           UnionIsChanged a b zone = Inr (c1, z1) \<and> Union a b zone = Inr z1 \<and>
           (c1 = False \<longleftrightarrow> words z1 a = words zone a) \<and>
           IntersectIsChanged a b zone = Inr (c2, z2) \<and> Intersect a b zone = Inr z2 \<and>
           (c2 = False \<longleftrightarrow> words z2 a = words zone a)"
  using wf_parts(1)[OF assms(1)]
  by (simp add: UnionIsChanged_eq[OF assms] Union_eq[OF assms]
      IntersectIsChanged_eq[OF assms] Intersect_eq[OF assms] words_set_words)

theorem ischanged_agrees_witness:
  "wf zoneABC vecA \<and> wf zoneABC vecB \<and> length' vecB = length' vecA \<and>
   (\<exists>c1 z1 c2 z2.
      UnionIsChanged vecA vecB zoneABC = Inr (c1, z1) \<and> Union vecA vecB zoneABC = Inr z1 \<and>
      (c1 = False \<longleftrightarrow> words z1 vecA = words zoneABC vecA) \<and>
      IntersectIsChanged vecA vecB zoneABC = Inr (c2, z2) \<and> Intersect vecA vecB zoneABC = Inr z2 \<and>
      (c2 = False \<longleftrightarrow> words z2 vecA = words zoneABC vecA))"
proof -
  have h: "length' vecB = length' vecA" by (simp add: abc_defs)
  from ischanged_agrees [OF wf_ABC(1,2) h] wf_ABC h show ?thesis by simp
qed

lemma wf_after:
  fixes zone :: "'a::len word Zone"
  assumes "wf zone a" "wf zone b" "length ws = length (words zone a)"
  shows "wf (zone\<lparr>arrays := (arrays zone)[data' a := ws]\<rparr>) b"
  using assms wf_parts[OF assms(1)] by (intro wf_set_words) (simp_all add: words_def)

lemma map2_same_length:
  "length xs = length ys \<Longrightarrow> length (map2 f xs ys) = length xs"
  by simp

lemma list_eq_nth:
  "length xs = length ys \<Longrightarrow> (\<And>i. i < length xs \<Longrightarrow> xs ! i = ys ! i) \<Longrightarrow> xs = ys"
  by (rule nth_equalityI) simp_all

text \<open>
  C5. Over vectors of equal length: \<^verbatim>\<open>A.Union(B)\<close> leaves in \<open>A\<close> the words that
  \<^verbatim>\<open>B.Union(A)\<close> leaves in \<open>B\<close>, and so for \<^verbatim>\<open>Intersect\<close>; uniting (intersecting) \<open>A\<close> with
  \<open>B\<close> and then with \<open>C\<close> leaves in \<open>A\<close> the words that uniting (intersecting) \<open>B\<close> with
  \<open>C\<close> first, and \<open>A\<close> with \<open>B\<close> afterwards, leaves; \<^verbatim>\<open>A.Subtract(A)\<close> makes \<open>A\<close> empty;
  \<^verbatim>\<open>A.Union(E)\<close> with an all-zero \<open>E\<close> keeps the words of \<open>A\<close>; and \<^verbatim>\<open>A.Intersect(E)\<close> makes
  \<open>A\<close> empty.
\<close>

theorem set_algebra:
  fixes zone :: "'a::len word Zone"
  assumes "wf zone a" and "wf zone b" and "wf zone c" and "wf zone e"
    and "length' b = length' a" and "length' c = length' a" and "length' e = length' a"
    and "IsEmpty e zone = Inr True"
  shows "(\<exists>z1 z2. Union a b zone = Inr z1 \<and> Union b a zone = Inr z2 \<and> words z1 a = words z2 b) \<and>
         (\<exists>z1 z2. Intersect a b zone = Inr z1 \<and> Intersect b a zone = Inr z2 \<and>
            words z1 a = words z2 b) \<and>
         (\<exists>z1 z2 z3 z4. Union a b zone = Inr z1 \<and> Union a c z1 = Inr z2 \<and>
            Union b c zone = Inr z3 \<and> Union a b z3 = Inr z4 \<and> words z2 a = words z4 a) \<and>
         (\<exists>z1 z2 z3 z4. Intersect a b zone = Inr z1 \<and> Intersect a c z1 = Inr z2 \<and>
            Intersect b c zone = Inr z3 \<and> Intersect a b z3 = Inr z4 \<and> words z2 a = words z4 a) \<and>
         (\<exists>z1. Subtract a a zone = Inr z1 \<and> IsEmpty a z1 = Inr True) \<and>
         (\<exists>z1. Union a e zone = Inr z1 \<and> words z1 a = words zone a) \<and>
         (\<exists>z1. Intersect a e zone = Inr z1 \<and> IsEmpty a z1 = Inr True)"
proof -
  note wa = wf_parts[OF assms(1)] and wb = wf_parts[OF assms(2)] and wc = wf_parts[OF assms(3)]
    and we = wf_parts[OF assms(4)]
  have lb: "length (words zone b) = length (words zone a)"
    and lc: "length (words zone c) = length (words zone a)"
    and le: "length (words zone e) = length (words zone a)"
    using wf_same_length(1)[OF assms(1,2,5)] wf_same_length(1)[OF assms(1,3,6)]
      wf_same_length(1)[OF assms(1,4,7)] by simp_all
  have e0: "\<forall>x \<in> set (words zone e). x = 0"
    using assms(8) by (simp add: IsEmpty_eq[OF assms(4)])
  let ?U = "\<lambda>x y. map2 (OR) (words zone x) (words zone y)"
  let ?N = "\<lambda>x y. map2 (AND) (words zone x) (words zone y)"
  let ?zU = "\<lambda>x y. zone\<lparr>arrays := (arrays zone)[data' x := ?U x y]\<rparr>"
  let ?zN = "\<lambda>x y. zone\<lparr>arrays := (arrays zone)[data' x := ?N x y]\<rparr>"
  have comm_u: "?U a b = ?U b a" and comm_n: "?N a b = ?N b a"
    using lb by (auto intro!: list_eq_nth simp: ac_simps)
  have 1: "\<exists>z1 z2. Union a b zone = Inr z1 \<and> Union b a zone = Inr z2 \<and> words z1 a = words z2 b"
    using wa wb comm_u
    by (simp add: Union_eq[OF assms(1,2,5)] Union_eq[OF assms(2,1) assms(5)[symmetric]] words_set_words)
  have 2: "\<exists>z1 z2. Intersect a b zone = Inr z1 \<and> Intersect b a zone = Inr z2 \<and> words z1 a = words z2 b"
    using wa wb comm_n
    by (simp add: Intersect_eq[OF assms(1,2,5)] Intersect_eq[OF assms(2,1) assms(5)[symmetric]]
        words_set_words)
  have bc: "length' c = length' b" using assms by simp
  have same_data: "data' c = data' a \<Longrightarrow> words zone c = words zone a"
    "data' a = data' b \<Longrightarrow> words zone a = words zone b"
    by (simp_all add: words_def)
  have 3: "\<exists>z1 z2 z3 z4. Union a b zone = Inr z1 \<and> Union a c z1 = Inr z2 \<and>
            Union b c zone = Inr z3 \<and> Union a b z3 = Inr z4 \<and> words z2 a = words z4 a"
  proof -
    let ?z1 = "?zU a b" and ?z3 = "?zU b c"
    have wf1: "wf ?z1 a" "wf ?z1 c" and wf3: "wf ?z3 a" "wf ?z3 b"
      using assms(1,2,3) lb lc by (auto intro!: wf_after)
    have a1: "words ?z1 a = ?U a b" using wa by (simp add: words_set_words)
    have c1: "words ?z1 c = (if data' c = data' a then ?U a b else words zone c)"
      using wa by (simp add: words_set_words)
    have b3: "words ?z3 b = ?U b c" using wb by (simp add: words_set_words)
    have a3: "words ?z3 a = (if data' a = data' b then ?U b c else words zone a)"
      using wb by (simp add: words_set_words)
    let ?z2 = "?z1\<lparr>arrays := (arrays ?z1)[data' a := map2 (OR) (words ?z1 a) (words ?z1 c)]\<rparr>"
    let ?z4 = "?z3\<lparr>arrays := (arrays ?z3)[data' a := map2 (OR) (words ?z3 a) (words ?z3 b)]\<rparr>"
    have u1: "Union a b zone = Inr ?z1" by (rule Union_eq[OF assms(1,2,5)])
    have u2: "Union a c ?z1 = Inr ?z2" by (rule Union_eq[OF wf1 assms(6)])
    have u3: "Union b c zone = Inr ?z3" by (rule Union_eq[OF assms(2,3) bc])
    have u4: "Union a b ?z3 = Inr ?z4" by (rule Union_eq[OF wf3 assms(5)])
    have w2: "words ?z2 a = map2 (OR) (words ?z1 a) (words ?z1 c)"
      using wa by (subst words_set_words) simp_all
    have w4: "words ?z4 a = map2 (OR) (words ?z3 a) (words ?z3 b)"
      using wa by (subst words_set_words) simp_all
    have "map2 (OR) (words ?z1 a) (words ?z1 c) = map2 (OR) (words ?z3 a) (words ?z3 b)"
      unfolding a1 c1 b3 a3
      by (rule assoc_with_sharing[OF lb lc same_data or_words])
    then have "words ?z2 a = words ?z4 a" using w2 w4 by simp
    then show ?thesis using u1 u2 u3 u4 by blast
  qed
  have 4: "\<exists>z1 z2 z3 z4. Intersect a b zone = Inr z1 \<and> Intersect a c z1 = Inr z2 \<and>
            Intersect b c zone = Inr z3 \<and> Intersect a b z3 = Inr z4 \<and> words z2 a = words z4 a"
  proof -
    let ?z1 = "?zN a b" and ?z3 = "?zN b c"
    have wf1: "wf ?z1 a" "wf ?z1 c" and wf3: "wf ?z3 a" "wf ?z3 b"
      using assms(1,2,3) lb lc by (auto intro!: wf_after)
    have a1: "words ?z1 a = ?N a b" using wa by (simp add: words_set_words)
    have c1: "words ?z1 c = (if data' c = data' a then ?N a b else words zone c)"
      using wa by (simp add: words_set_words)
    have b3: "words ?z3 b = ?N b c" using wb by (simp add: words_set_words)
    have a3: "words ?z3 a = (if data' a = data' b then ?N b c else words zone a)"
      using wb by (simp add: words_set_words)
    let ?z2 = "?z1\<lparr>arrays := (arrays ?z1)[data' a := map2 (AND) (words ?z1 a) (words ?z1 c)]\<rparr>"
    let ?z4 = "?z3\<lparr>arrays := (arrays ?z3)[data' a := map2 (AND) (words ?z3 a) (words ?z3 b)]\<rparr>"
    have u1: "Intersect a b zone = Inr ?z1" by (rule Intersect_eq[OF assms(1,2,5)])
    have u2: "Intersect a c ?z1 = Inr ?z2" by (rule Intersect_eq[OF wf1 assms(6)])
    have u3: "Intersect b c zone = Inr ?z3" by (rule Intersect_eq[OF assms(2,3) bc])
    have u4: "Intersect a b ?z3 = Inr ?z4" by (rule Intersect_eq[OF wf3 assms(5)])
    have w2: "words ?z2 a = map2 (AND) (words ?z1 a) (words ?z1 c)"
      using wa by (subst words_set_words) simp_all
    have w4: "words ?z4 a = map2 (AND) (words ?z3 a) (words ?z3 b)"
      using wa by (subst words_set_words) simp_all
    have "map2 (AND) (words ?z1 a) (words ?z1 c) = map2 (AND) (words ?z3 a) (words ?z3 b)"
      unfolding a1 c1 b3 a3
      by (rule assoc_with_sharing[OF lb lc same_data and_words])
    then have "words ?z2 a = words ?z4 a" using w2 w4 by simp
    then show ?thesis using u1 u2 u3 u4 by blast
  qed
  let ?zS = "zone\<lparr>arrays := (arrays zone)[data' a := map2 (\<lambda>x y. x AND NOT y) (words zone a) (words zone a)]\<rparr>"
  have wfS: "wf ?zS a" using assms(1) by (auto intro!: wf_after)
  have 5: "\<exists>z1. Subtract a a zone = Inr z1 \<and> IsEmpty a z1 = Inr True"
    using wa by (auto simp: Subtract_eq[OF assms(1,1)] IsEmpty_eq[OF wfS] words_set_words set_zip)
  have e0': "words zone e ! i = 0" if "i < length (words zone a)" for i
    using e0 le that by (simp add: all_set_conv_all_nth)
  have ue: "?U a e = words zone a"
    using le e0' by (auto intro!: list_eq_nth)
  have 6: "\<exists>z1. Union a e zone = Inr z1 \<and> words z1 a = words zone a"
    using wa ue by (simp add: Union_eq[OF assms(1,4,7)] words_set_words)
  have wfE: "wf (?zN a e) a" using assms(1) le by (auto intro!: wf_after)
  have 7: "\<exists>z1. Intersect a e zone = Inr z1 \<and> IsEmpty a z1 = Inr True"
    using wa e0' le
    by (auto simp: Intersect_eq[OF assms(1,4,7)] IsEmpty_eq[OF wfE] words_set_words set_zip)
  show ?thesis using 1 2 3 4 5 6 7 by blast
qed

theorem set_algebra_witness:
  "wf zoneABC vecA \<and> wf zoneABC vecB \<and> wf zoneABC vecC \<and> wf zoneABC vecE \<and>
   length' vecB = length' vecA \<and> length' vecC = length' vecA \<and> length' vecE = length' vecA \<and>
   IsEmpty vecE zoneABC = Inr True \<and>
   (\<exists>z1 z2. Union vecA vecB zoneABC = Inr z1 \<and> Union vecB vecA zoneABC = Inr z2 \<and>
      words z1 vecA = words z2 vecB) \<and>
   (\<exists>z1 z2. Intersect vecA vecB zoneABC = Inr z1 \<and> Intersect vecB vecA zoneABC = Inr z2 \<and>
      words z1 vecA = words z2 vecB) \<and>
   (\<exists>z1 z2 z3 z4. Union vecA vecB zoneABC = Inr z1 \<and> Union vecA vecC z1 = Inr z2 \<and>
      Union vecB vecC zoneABC = Inr z3 \<and> Union vecA vecB z3 = Inr z4 \<and>
      words z2 vecA = words z4 vecA) \<and>
   (\<exists>z1 z2 z3 z4. Intersect vecA vecB zoneABC = Inr z1 \<and> Intersect vecA vecC z1 = Inr z2 \<and>
      Intersect vecB vecC zoneABC = Inr z3 \<and> Intersect vecA vecB z3 = Inr z4 \<and>
      words z2 vecA = words z4 vecA) \<and>
   (\<exists>z1. Subtract vecA vecA zoneABC = Inr z1 \<and> IsEmpty vecA z1 = Inr True) \<and>
   (\<exists>z1. Union vecA vecE zoneABC = Inr z1 \<and> words z1 vecA = words zoneABC vecA) \<and>
   (\<exists>z1. Intersect vecA vecE zoneABC = Inr z1 \<and> IsEmpty vecA z1 = Inr True)"
proof -
  have h: "length' vecB = length' vecA" "length' vecC = length' vecA" "length' vecE = length' vecA"
    by (simp_all add: abc_defs)
  have e: "IsEmpty vecE zoneABC = Inr True"
    by (simp add: IsEmpty_def IsEmpty_from.simps rd_def abc_defs)
  from set_algebra [OF wf_ABC h e] wf_ABC h e show ?thesis by blast
qed

section \<open>Growing\<close>

lemma bit_at_update:
  fixes ws :: "'a::len word list"
  assumes "k < length ws"
  shows "bit_at (ws[k := w]) p \<longleftrightarrow>
    (if p div LENGTH('a) = k then bit w (p mod LENGTH('a)) else bit_at ws p)"
proof (cases "p div LENGTH('a) = k")
  case True
  then have "p < length ws * LENGTH('a)"
    using assms by (simp add: div_less_iff_less_mult[symmetric])
  with True assms show ?thesis by (simp add: bit_at_def)
next
  case False
  then show ?thesis by (simp add: bit_at_def)
qed

lemma same_position_nat:
  fixes p q :: nat
  shows "p div k = q div k \<and> p mod k = q mod k \<longleftrightarrow> p = q"
  by (metis div_mult_mod_eq)

lemma Add_result:
  fixes zone :: "'a::len word Zone"
  assumes "wf zone b" "0 \<le> i" "i < length' b"
  shows "\<exists>z1. Add b i zone = Inr z1 \<and> wf z1 b \<and>
           (\<forall>p. bit_at (words z1 b) p \<longleftrightarrow> p = nat i \<or> bit_at (words zone b) p) \<and>
           length (arrays z1) = length (arrays zone) \<and>
           (\<forall>q. q \<noteq> data' b \<longrightarrow> arrays z1 ! q = arrays zone ! q) \<and>
           length (words z1 b) = length (words zone b)"
proof -
  let ?K = "kDataBits TYPE('a)"
  let ?w = "nat (i div ?K)" and ?m = "nat (i mod ?K)"
  let ?z1 = "zone\<lparr>arrays := (arrays zone)[data' b :=
     (words zone b)[?w := words zone b ! ?w OR push_bit ?m 1]]\<rparr>"
  note ix = wf_index[OF assms]
  note np = nat_position[OF assms(2), where 'a='a]
  have wf1: "wf ?z1 b"
    using assms(1) ix by (simp add: wf_set_words words_def)
  have w1: "words ?z1 b = (words zone b)[?w := words zone b ! ?w OR push_bit ?m 1]"
    using ix by (simp add: words_set_words)
  have bits: "bit_at (words ?z1 b) p \<longleftrightarrow> p = nat i \<or> bit_at (words zone b) p" for p
  proof (cases "p div LENGTH('a) = ?w")
    case True
    then have lt: "p < length (words zone b) * LENGTH('a)"
      using ix(1) by (simp add: div_less_iff_less_mult[symmetric])
    have "p mod LENGTH('a) = ?m \<longleftrightarrow> p = nat i"
      using True same_position_nat[of p "LENGTH('a)" "nat i"] by (simp add: np)
    then show ?thesis
      using True ix lt
      by (simp add: w1 bit_at_update bit_set_one bit_at_def del: push_bit_of_1) blast
  next
    case False
    then have "p \<noteq> nat i" by (auto simp: np)
    with False ix show ?thesis by (simp add: w1 bit_at_update del: push_bit_of_1)
  qed
  have "Add b i zone = Inr ?z1" by (rule Add_eq[OF assms])
  moreover have "length (words ?z1 b) = length (words zone b)"
    by (simp add: w1 del: push_bit_of_1)
  moreover have "length (arrays ?z1) = length (arrays zone)"
    "\<forall>q. q \<noteq> data' b \<longrightarrow> arrays ?z1 ! q = arrays zone ! q"
    by simp_all
  ultimately show ?thesis using wf1 bits by (intro exI[of _ ?z1] conjI allI) blast+
qed

lemma EnsureCapacity_loop_2000: "EnsureCapacity_loop kInitialLength 2000 = Some (Inr 2048)"
  by (simp add: EnsureCapacity_loop.simps kInitialLength_def INT_MAX_def)

lemma BitVector_new_result:
  fixes zone :: "'a::len word Zone"
  assumes "0 \<le> len"
  shows "\<exists>b z1. BitVector_new len zone = Inr (b, z1) \<and> wf z1 b \<and> length' b = len \<and>
           data' b = length (arrays zone) \<and>
           words z1 b = replicate (nat (SizeFor TYPE('a) len)) 0 \<and>
           length (arrays z1) = Suc (length (arrays zone)) \<and>
           (\<forall>q < length (arrays zone). arrays z1 ! q = arrays zone ! q)"
  using assms SizeFor_ge1[OF assms, where 'a='a]
  by (simp add: BitVector_new_eq[OF assms] wf_def words_def nth_append)

lemma Growable_Contains_eq:
  "Growable_Contains g i zone =
     (case bits' g of
        None \<Rightarrow> Inr False
      | Some b \<Rightarrow> if length' b \<le> i then Inr False else Contains b i zone)"
  by (simp add: Growable_Contains_def InBitsRange_def split: option.splits)

text \<open>
  C7. \<^verbatim>\<open>GrowableBitVector::Contains(i)\<close> is false when there is no backing vector or
  when \<open>i\<close> is not below its length, and is the backing vector's \<^verbatim>\<open>Contains(i)\<close> otherwise.
  From the empty growable vector, \<^verbatim>\<open>Add(2000, zone)\<close> doubles 1024 once, to 2048, and
  allocates a backing vector of that length; then \<^verbatim>\<open>Contains(2000)\<close> is true and
  \<^verbatim>\<open>Contains(500)\<close> is false.
\<close>

theorem growable_contains_add:
  fixes zone :: "'a::len word Zone"
  shows "Growable_Contains g i zone =
           (case bits' g of
              None \<Rightarrow> Inr False
            | Some b \<Rightarrow> if length' b \<le> i then Inr False else Contains b i zone) \<and>
         EnsureCapacity_loop kInitialLength 2000 = Some (Inr 2048) \<and>
         (\<exists>g1 z1 b. Growable_Add GrowableBitVector_empty 2000 zone = Inr (g1, z1) \<and>
            bits' g1 = Some b \<and> length' b = 2048 \<and>
            Growable_Contains g1 2000 z1 = Inr True \<and>
            Growable_Contains g1 500 z1 = Inr False)"
proof -
  note 1 = Growable_Contains_eq
  from BitVector_new_result[of 2048 zone] obtain b z0 where
    n: "BitVector_new 2048 zone = Inr (b, z0)" "wf z0 b" "length' b = 2048"
      "words z0 b = replicate (nat (SizeFor TYPE('a) 2048)) 0"
    by auto
  have i: "(0::int) \<le> 2000" "2000 < length' b" "(0::int) \<le> 500" "500 < length' b"
    using n(3) by simp_all
  from Add_result[OF n(2) i(1,2)] obtain z1 where
    a: "Add b 2000 z0 = Inr z1" "wf z1 b"
      "\<forall>p. bit_at (words z1 b) p \<longleftrightarrow> p = nat 2000 \<or> bit_at (words z0 b) p"
    by blast
  let ?g1 = "\<lparr>bits' = Some b\<rparr>"
  have e: "EnsureCapacity GrowableBitVector_empty 2000 zone = Inr (?g1, z0)"
    by (simp add: EnsureCapacity_def InBitsRange_def GrowableBitVector_empty_def
        EnsureCapacity_loop_2000 n(1))
  have add: "Growable_Add GrowableBitVector_empty 2000 zone = Inr (?g1, z1)"
    by (simp add: Growable_Add_def e a(1))
  have c1: "Growable_Contains ?g1 2000 z1 = Inr True"
    using a(3) n(3) by (simp add: 1 Contains_bit_at[OF a(2) i(1,2)])
  have c2: "Growable_Contains ?g1 500 z1 = Inr False"
    using a(3) n(3,4) by (simp add: 1 Contains_bit_at[OF a(2) i(3,4)])
  show ?thesis
    using EnsureCapacity_loop_2000 add c1 c2 n(3)
    by (intro conjI exI[of _ ?g1] exI[of _ z1] exI[of _ b]) (simp_all add: Growable_Contains_eq)
qed

section \<open>The iterator\<close>

lemma and_1_eq_0_iff: "(val :: 'a::len word) AND 1 = 0 \<longleftrightarrow> \<not> bit val 0"
  by (simp add: and_one_eq bit_0 mod_2_eq_odd)

lemma and_255_eq_0_iff: "(val :: 'a::len word) AND 0xFF = 0 \<longleftrightarrow> (\<forall>n < 8. \<not> bit val n)"
proof -
  have "(255 :: 'a word) = mask 8" by (simp add: mask_eq_exp_minus_1)
  then have "val AND 0xFF = take_bit 8 val" by (simp add: take_bit_eq_mask)
  moreover have "take_bit 8 val = 0 \<longleftrightarrow> (\<forall>n < 8. \<not> bit val n)"
    by (auto simp: bit_eq_iff bit_take_bit_iff dest: bit_imp_le_length)
  ultimately show ?thesis by simp
qed

lemma SkipZeroBits_result:
  fixes val :: "'a::len word"
  assumes "bit val n" "\<forall>m < n. \<not> bit val m"
  shows "SkipZeroBits it val = Some (drop_bit n val, it\<lparr>current' := current' it + int n\<rparr>)"
  using assms
proof (induction n arbitrary: it val)
  case 0
  then show ?case by (subst SkipZeroBits.simps) (simp add: and_1_eq_0_iff)
next
  case (Suc n)
  have z: "\<not> bit val 0" using Suc.prems(2) by simp
  have "bit (drop_bit 1 val) n" "\<forall>m < n. \<not> bit (drop_bit 1 val) m"
    using Suc.prems by (simp_all add: bit_drop_bit_eq)
  from Suc.IH[OF this, of "it\<lparr>current' := current' it + 1\<rparr>"] z
  show ?case by (subst SkipZeroBits.simps) (simp add: and_1_eq_0_iff drop_bit_drop_bit)
qed

lemma SkipZeroBytes_result:
  fixes val :: "'a::len word"
  assumes "bit val n" "\<forall>m < n. \<not> bit val m"
  shows "SkipZeroBytes it val =
         Some (drop_bit (8 * (n div 8)) val, it\<lparr>current' := current' it + int (8 * (n div 8))\<rparr>)"
  using assms
proof (induction n arbitrary: it val rule: less_induct)
  case (less n)
  show ?case
  proof (cases "n < 8")
    case True
    then have "val AND 0xFF \<noteq> 0" using less.prems(1) by (auto simp: and_255_eq_0_iff)
    with True show ?thesis by (subst SkipZeroBytes.simps) simp
  next
    case False
    then have z: "val AND 0xFF = 0" using less.prems(2) by (simp add: and_255_eq_0_iff)
    have n8: "n - 8 < n" "8 + (n - 8) = n" using False by simp_all
    have "bit (drop_bit 8 val) (n - 8)" "\<forall>m < n - 8. \<not> bit (drop_bit 8 val) m"
      using less.prems False n8 by (simp_all add: bit_drop_bit_eq)
    from less.IH[OF n8(1) this, of "it\<lparr>current' := current' it + 8\<rparr>"]
    have "SkipZeroBytes (it\<lparr>current' := current' it + 8\<rparr>) (drop_bit 8 val) =
          Some (drop_bit (8 * ((n - 8) div 8)) (drop_bit 8 val),
                it\<lparr>current' := current' it + 8 + int (8 * ((n - 8) div 8))\<rparr>)"
      by simp
    moreover have "8 + 8 * ((n - 8) div 8) = 8 * (n div 8)"
      using False le_div_geq[of 8 n] by simp
    ultimately show ?thesis
      using z by (subst SkipZeroBytes.simps) (simp add: drop_bit_drop_bit add.commute)
  qed
qed

lemma skip_to_lowest:
  fixes val :: "'a::len word"
  assumes "bit val n" "\<forall>m < n. \<not> bit val m"
  shows "(case SkipZeroBytes it val of
            None \<Rightarrow> Inl Diverges
          | Some (v, it2) \<Rightarrow>
              (case SkipZeroBits it2 v of
                 None \<Rightarrow> Inl Diverges
               | Some (val1, it3) \<Rightarrow> Inr (it3\<lparr>current_value' := drop_bit 1 val1\<rparr>))) =
         Inr (it\<lparr>current' := current' it + int n, current_value' := drop_bit (Suc n) val\<rparr>)"
proof -
  let ?k = "8 * (n div 8)"
  have k: "?k + n mod 8 = n" by simp
  have "bit (drop_bit ?k val) (n mod 8)"
    using assms(1) by (simp add: bit_drop_bit_eq)
  moreover have "\<forall>m < n mod 8. \<not> bit (drop_bit ?k val) m"
  proof (intro allI impI)
    fix m assume "m < n mod 8"
    then have "?k + m < n" using k by linarith
    then show "\<not> bit (drop_bit ?k val) m" using assms(2) by (simp add: bit_drop_bit_eq)
  qed
  ultimately have "SkipZeroBits (it\<lparr>current' := current' it + int ?k\<rparr>) (drop_bit ?k val) =
      Some (drop_bit (n mod 8) (drop_bit ?k val),
            it\<lparr>current' := current' it + int ?k + int (n mod 8)\<rparr>)"
    using SkipZeroBits_result[of "drop_bit ?k val" "n mod 8" "it\<lparr>current' := current' it + int ?k\<rparr>"]
    by simp
  moreover have "current' it + int ?k + int (n mod 8) = current' it + int n"
    using k by linarith
  moreover have "drop_bit 1 (drop_bit (n mod 8) (drop_bit ?k val)) = drop_bit (Suc n) val"
    using k by (simp add: drop_bit_drop_bit add.commute)
  ultimately show ?thesis
    by (simp add: SkipZeroBytes_result[OF assms])
qed

lemma lowest_bit:
  fixes val :: "'a::len word"
  assumes "val \<noteq> 0"
  obtains n where "bit val n" "\<forall>m < n. \<not> bit val m"
proof -
  from assms obtain k where "bit val k" by (auto simp: bit_eq_iff)
  then have "bit val (LEAST k. bit val k)" by (rule LeastI)
  moreover have "\<forall>m < (LEAST k. bit val k). \<not> bit val m"
    using not_less_Least by blast
  ultimately show ?thesis using that by blast
qed

lemma bits_from_first:
  fixes ws :: "'a::len word list"
  assumes "c \<le> q" "bit_at ws q" "\<forall>p. c \<le> p \<and> p < q \<longrightarrow> \<not> bit_at ws p"
  shows "bits_from ws c = q # bits_from ws (Suc q)"
proof -
  let ?N = "length ws * LENGTH('a)"
  have qN: "q < ?N" using assms(2) by (simp add: bit_at_def)
  have "[c..<?N] = [c..<q] @ q # [Suc q..<?N]"
    using assms(1) qN by (metis le_add_diff_inverse less_imp_le_nat upt_add_eq_append upt_conv_Cons)
  moreover have "filter (bit_at ws) [c..<q] = []"
    using assms(3) by (simp add: filter_empty_conv)
  ultimately show ?thesis using assms(2) by (simp add: bits_from_def)
qed

lemma bits_from_none:
  fixes ws :: "'a::len word list"
  assumes "\<forall>p. c \<le> p \<longrightarrow> \<not> bit_at ws p"
  shows "bits_from ws c = []"
  using assms by (simp add: bits_from_def filter_empty_conv)

lemma bits_from_skip:
  fixes ws :: "'a::len word list"
  assumes "c \<le> d" "\<forall>p. c \<le> p \<and> p < d \<longrightarrow> \<not> bit_at ws p"
  shows "bits_from ws c = bits_from ws d"
proof (cases "d \<le> length ws * LENGTH('a)")
  case True
  then have "[c..<length ws * LENGTH('a)] = [c..<d] @ [d..<length ws * LENGTH('a)]"
    using assms(1) by (metis le_add_diff_inverse upt_add_eq_append)
  moreover have "filter (bit_at ws) [c..<d] = []"
    using assms(2) by (simp add: filter_empty_conv)
  ultimately show ?thesis by (simp add: bits_from_def)
next
  case False
  then have "bits_from ws d = []" by (simp add: bits_from_def)
  moreover have "bits_from ws c = []"
    unfolding bits_from_def filter_empty_conv
  proof
    fix p assume "p \<in> set [c..<length ws * LENGTH('a)]"
    then have "c \<le> p" "p < d" using False by simp_all
    then show "\<not> bit_at ws p" using assms(2) by simp
  qed
  ultimately show ?thesis by simp
qed

lemma bit_at_in_word:
  fixes ws :: "'a::len word list"
  assumes "k < length ws" "j < LENGTH('a)"
  shows "bit_at ws (k * LENGTH('a) + j) = bit (ws ! k) j"
proof -
  have "k * LENGTH('a) + j < length ws * LENGTH('a)"
  proof -
    have "k * LENGTH('a) + j < Suc k * LENGTH('a)" using assms(2) by simp
    also have "\<dots> \<le> length ws * LENGTH('a)" using assms(1) by (intro mult_le_mono1) simp
    finally show ?thesis .
  qed
  then show ?thesis using assms by (simp add: bit_at_def)
qed

lemma in_word_cases:
  fixes k c p :: nat
  assumes "k * n \<le> c" "c \<le> p" "p < Suc k * n"
  obtains j where "p = k * n + j" "j < n" "c - k * n \<le> j"
proof -
  have "p = k * n + (p - k * n)" "p - k * n < n" "c - k * n \<le> p - k * n"
    using assms by (simp_all add: diff_le_mono)
  then show ?thesis using that by blast
qed

lemma bits_from_Cons:
  fixes ws :: "'a::len word list"
  assumes "bits_from ws c = q # rest"
  shows "c \<le> q" and "bit_at ws q" and "rest = bits_from ws (Suc q)"
proof -
  have "q \<in> set (bits_from ws c)" using assms by simp
  then show q: "c \<le> q" "bit_at ws q" by (simp_all add: bits_from_def)
  have "sorted (bits_from ws c)" unfolding bits_from_def by (rule sorted_wrt_filter) simp
  then have le: "\<forall>x \<in> set rest. q \<le> x" using assms by simp
  have "\<not> bit_at ws p" if p: "c \<le> p" "p < q" for p
  proof
    assume b: "bit_at ws p"
    then have "p < length ws * LENGTH('a)" by (simp add: bit_at_def)
    with b p have "p \<in> set (bits_from ws c)" by (simp add: bits_from_def)
    then show False using assms le p(2) by auto
  qed
  then have "bits_from ws c = q # bits_from ws (Suc q)"
    using q by (intro bits_from_first) simp_all
  with assms show "rest = bits_from ws (Suc q)" by simp
qed

text \<open>
  The search for a word that is not zero. The iterator has examined every position below
  \<open>c\<close> and its counter is \<open>c + e\<close>. It stops in the word of the next set position \<open>q\<close>, and
  there the counter is short of \<open>q + e\<close> by the number of zero bits still to skip when \<open>q\<close>
  is in the word the search started in; after a move the counter is too large by the
  offset of \<open>c\<close> in the word that was left as well.
\<close>

lemma skip_zero_words_result:
  fixes zone :: "'a::len word Zone"
  assumes "wf zone b" "positioned zone b it c" "current' it = int c + e"
  shows "\<exists>it'. skip_zero_words it zone = Inr it' \<and> target' it' = b \<and>
     (case bits_from (words zone b) c of
        [] \<Rightarrow> current_value' it' = 0 \<and> Done it'
      | q # rest \<Rightarrow>
          current_index' it' = int (q div LENGTH('a)) \<and> q div LENGTH('a) < length (words zone b) \<and>
          (\<exists>n. current' it' + int n =
                  int q + (if q div LENGTH('a) = nat (current_index' it) then e
                           else e + int (c - nat (current_index' it) * LENGTH('a))) \<and>
             bit (current_value' it') n \<and>
             (\<forall>m < n. \<not> bit (current_value' it') m) \<and>
             drop_bit (Suc n) (current_value' it') =
               drop_bit (Suc (q mod LENGTH('a))) (words zone b ! (q div LENGTH('a)))))"
  using assms(2,3)
proof (induction "length (words zone b) - nat (current_index' it)" arbitrary: it c e rule: less_induct)
  case less
  let ?K = "LENGTH('a)" and ?ws = "words zone b"
  define k where "k = nat (current_index' it)"
  note w = wf_parts[OF assms(1)]
  have p: "target' it = b" "current_index' it = int k" "k < length ?ws" "k * ?K \<le> c" "c \<le> Suc k * ?K"
    "current_value' it = drop_bit (c - k * ?K) (?ws ! k)"
    using less.prems(1) by (simp_all add: positioned_def k_def Let_def)
  define d where "d = c - k * ?K"
  have c: "c = k * ?K + d" using p(4) by (simp add: d_def)
  show ?case
  proof (cases "current_value' it = 0")
    case False
    then obtain n where n: "bit (current_value' it) n" "\<forall>m < n. \<not> bit (current_value' it) m"
      by (rule lowest_bit)
    have bn: "bit (?ws ! k) (d + n)" using n(1) by (simp add: p(6) bit_drop_bit_eq d_def)
    then have dn: "d + n < ?K" by (rule bit_imp_le_length)
    let ?q = "c + n"
    have q: "?q = k * ?K + (d + n)" using c by simp
    have qdiv: "?q div ?K = k" and qmod: "?q mod ?K = d + n" using dn by (simp_all add: q)
    have at: "bit_at ?ws ?q" unfolding q using bit_at_in_word[OF p(3) dn] bn by simp
    have none: "\<not> bit_at ?ws x" if x: "c \<le> x" "x < ?q" for x
    proof -
      define j where "j = x - k * ?K"
      have j: "x = k * ?K + j" "j < ?K" "d \<le> j" "j - d < n"
        using x c dn unfolding j_def by linarith+
      have "bit (current_value' it) (j - d) = bit (?ws ! k) j"
        using j(3) by (simp add: p(6) bit_drop_bit_eq d_def[symmetric])
      then have "\<not> bit (?ws ! k) j" using n(2) j(4) by simp
      then show ?thesis unfolding j(1) using bit_at_in_word[OF p(3) j(2)] by simp
    qed
    have bf: "bits_from ?ws c = ?q # bits_from ?ws (Suc ?q)"
      using at none by (intro bits_from_first) simp_all
    have db: "drop_bit (Suc n) (current_value' it) = drop_bit (Suc (d + n)) (?ws ! k)"
      by (simp add: p(6) drop_bit_drop_bit d_def[symmetric] add.commute)
    have sk: "skip_zero_words it zone = Inr it"
      using False by (subst skip_zero_words.simps) simp
    have cu: "current' it + int n = int ?q + e" using less.prems(2) by simp
    have body: "current_index' it = int (?q div ?K) \<and> ?q div ?K < length ?ws \<and>
          (\<exists>n'. current' it + int n' =
                   int ?q + (if ?q div ?K = nat (current_index' it) then e
                             else e + int (c - nat (current_index' it) * ?K)) \<and>
             bit (current_value' it) n' \<and>
             (\<forall>m < n'. \<not> bit (current_value' it) m) \<and>
             drop_bit (Suc n') (current_value' it) = drop_bit (Suc (?q mod ?K)) (?ws ! (?q div ?K)))"
      unfolding qdiv qmod k_def[symmetric]
      using p(2,3) n db cu by (intro conjI exI[of _ n]) simp_all
    show ?thesis
    proof (intro exI[of _ it] conjI)
      show "skip_zero_words it zone = Inr it" by (rule sk)
      show "target' it = b" by (rule p(1))
      show "case bits_from ?ws c of
              [] \<Rightarrow> current_value' it = 0 \<and> Done it
            | q # rest \<Rightarrow>
                current_index' it = int (q div ?K) \<and> q div ?K < length ?ws \<and>
                (\<exists>n. current' it + int n =
                        int q + (if q div ?K = nat (current_index' it) then e
                                 else e + int (c - nat (current_index' it) * ?K)) \<and>
                   bit (current_value' it) n \<and>
                   (\<forall>m < n. \<not> bit (current_value' it) m) \<and>
                   drop_bit (Suc n) (current_value' it) =
                     drop_bit (Suc (q mod ?K)) (?ws ! (q div ?K)))"
        unfolding bf list.case by (rule body)
    qed
  next
    case True
    have none: "\<not> bit_at ?ws x" if x: "c \<le> x" "x < Suc k * ?K" for x
    proof -
      define j where "j = x - k * ?K"
      have j: "x = k * ?K + j" "j < ?K" "d \<le> j"
        using x c unfolding j_def by (simp_all add: less_diff_conv2)
      have "bit (current_value' it) (j - d) = bit (?ws ! k) j"
        using j(3) by (simp add: p(6) bit_drop_bit_eq d_def[symmetric])
      then have "\<not> bit (?ws ! k) j" using True by simp
      then show ?thesis unfolding j(1) using bit_at_in_word[OF p(3) j(2)] by simp
    qed
    have bf: "bits_from ?ws c = bits_from ?ws (Suc k * ?K)"
      using p(5) none by (intro bits_from_skip) simp_all
    let ?it1 = "it\<lparr>current_index' := current_index' it + 1\<rparr>"
    show ?thesis
    proof (cases "Suc k < length ?ws")
      case False
      then have e: "Suc k = length ?ws" using p(3) by simp
      then have em: "bits_from ?ws (Suc k * ?K) = []" by (simp add: bits_from_def)
      have dn: "Done ?it1" using e p w by (simp add: Done_def)
      have sk: "skip_zero_words it zone = Inr ?it1"
        using True dn by (subst skip_zero_words.simps) (simp add: Let_def)
      show ?thesis
        unfolding sk bf em using True dn p(1) by (intro exI[of _ ?it1]) simp
    next
      case sk: True
      let ?it2 = "?it1\<lparr>current_value' := ?ws ! Suc k, current' := current' ?it1 + kDataBits TYPE('a)\<rparr>"
      define e2 where "e2 = e + int d"
      have nd: "\<not> Done ?it1" using sk p w by (simp add: Done_def)
      have r: "rd zone (data' (target' ?it1)) (current_index' ?it1) = Inr (?ws ! Suc k)"
        using sk p w by (simp add: rd_def words_def nat_add_distrib)
      have pos: "positioned zone b ?it2 (Suc k * ?K)"
        using sk p by (simp add: positioned_def Let_def nat_add_distrib)
      have cur: "current' ?it2 = int (Suc k * ?K) + e2"
        using less.prems(2) c by (simp add: kDataBits_def e2_def)
      have ix: "nat (current_index' ?it2) = Suc k" using p(2) by simp
      have "length ?ws - nat (current_index' ?it2) < length ?ws - nat (current_index' it)"
        using sk p by simp
      from less.hyps[OF this pos cur] obtain it' where
        s: "skip_zero_words ?it2 zone = Inr it'" and t: "target' it' = b"
        and res: "case bits_from ?ws (Suc k * ?K) of
            [] \<Rightarrow> current_value' it' = 0 \<and> Done it'
          | q # rest \<Rightarrow>
              current_index' it' = int (q div ?K) \<and> q div ?K < length ?ws \<and>
              (\<exists>n. current' it' + int n =
                      int q + (if q div ?K = Suc k then e2
                               else e2 + int (Suc k * ?K - Suc k * ?K)) \<and>
                 bit (current_value' it') n \<and>
                 (\<forall>m < n. \<not> bit (current_value' it') m) \<and>
                 drop_bit (Suc n) (current_value' it') =
                   drop_bit (Suc (q mod ?K)) (?ws ! (q div ?K)))"
        unfolding ix by blast
      have step: "skip_zero_words it zone = skip_zero_words ?it2 zone"
        using True nd r by (subst skip_zero_words.simps) (simp add: Let_def)
      show ?thesis
      proof (cases "bits_from ?ws (Suc k * ?K)")
        case Nil
        with res show ?thesis
          unfolding step bf using s t by (intro exI[of _ it']) simp
      next
        case (Cons q rest)
        have "Suc k * ?K \<le> q" by (rule bits_from_Cons(1)[OF Cons])
        then have "Suc k \<le> q div ?K" by (simp add: less_eq_div_iff_mult_less_eq)
        then have ne: "q div ?K \<noteq> k" by simp
        from res obtain n where i: "current_index' it' = int (q div ?K)" "q div ?K < length ?ws"
          and n: "current' it' + int n = int q + e2" "bit (current_value' it') n"
            "\<forall>m < n. \<not> bit (current_value' it') m"
            "drop_bit (Suc n) (current_value' it') = drop_bit (Suc (q mod ?K)) (?ws ! (q div ?K))"
          unfolding Cons list.case by (auto split: if_splits)
        have cu: "current' it' + int n =
            int q + (if q div ?K = k then e else e + int (c - k * ?K))"
          using n(1) ne by (simp add: e2_def d_def)
        show ?thesis
          unfolding step bf Cons list.case k_def[symmetric]
          using s t i cu n(2,3,4) by (intro exI[of _ it'] conjI exI[of _ n]) simp_all
      qed
    qed
  qed
qed

text \<open>
  One call of \<^verbatim>\<open>Advance()\<close>, from an iterator that has examined every position below \<open>c\<close>
  and whose counter is \<open>c - 1 + e\<close>.
\<close>

lemma Advance_result:
  fixes zone :: "'a::len word Zone"
  assumes "wf zone b" "positioned zone b it c" "current' it + 1 = int c + e"
  shows "\<exists>it'. Advance it zone = Inr it' \<and> target' it' = b \<and>
     (case bits_from (words zone b) c of
        [] \<Rightarrow> Done it'
      | q # rest \<Rightarrow>
          \<not> Done it' \<and> current_index' it' = int (q div LENGTH('a)) \<and>
          current' it' =
            int q + (if q div LENGTH('a) = nat (current_index' it) then e
                     else e + int (c - nat (current_index' it) * LENGTH('a))) \<and>
          positioned zone b it' (Suc q))"
proof -
  let ?K = "LENGTH('a)" and ?ws = "words zone b"
  let ?it0 = "it\<lparr>current' := current' it + 1\<rparr>"
  have pos0: "positioned zone b ?it0 c" using assms(2) by (simp add: positioned_def)
  have cur0: "current' ?it0 = int c + e" using assms(3) by simp
  have ix0: "current_index' ?it0 = current_index' it" by simp
  from skip_zero_words_result[OF assms(1) pos0 cur0] obtain it1 where
    s: "skip_zero_words ?it0 zone = Inr it1" and t: "target' it1 = b"
    and r: "case bits_from ?ws c of
        [] \<Rightarrow> current_value' it1 = 0 \<and> Done it1
      | q # rest \<Rightarrow>
          current_index' it1 = int (q div ?K) \<and> q div ?K < length ?ws \<and>
          (\<exists>n. current' it1 + int n =
                  int q + (if q div ?K = nat (current_index' it) then e
                           else e + int (c - nat (current_index' it) * ?K)) \<and>
             bit (current_value' it1) n \<and>
             (\<forall>m < n. \<not> bit (current_value' it1) m) \<and>
             drop_bit (Suc n) (current_value' it1) =
               drop_bit (Suc (q mod ?K)) (?ws ! (q div ?K)))"
    unfolding ix0 by blast
  show ?thesis
  proof (cases "bits_from ?ws c")
    case Nil
    with r have "current_value' it1 = 0" "Done it1" by simp_all
    then show ?thesis using s t Nil by (simp add: Advance_def)
  next
    case (Cons q rest)
    define e' where "e' = (if q div ?K = nat (current_index' it) then e
                           else e + int (c - nat (current_index' it) * ?K))"
    from r obtain n where i: "current_index' it1 = int (q div ?K)" "q div ?K < length ?ws"
      and n: "current' it1 + int n = int q + e'" "bit (current_value' it1) n"
        "\<forall>m < n. \<not> bit (current_value' it1) m"
        "drop_bit (Suc n) (current_value' it1) = drop_bit (Suc (q mod ?K)) (?ws ! (q div ?K))"
      unfolding Cons list.case e'_def by blast
    let ?it' = "it1\<lparr>current' := current' it1 + int n,
                    current_value' := drop_bit (Suc n) (current_value' it1)\<rparr>"
    have nz: "current_value' it1 \<noteq> 0" using n(2) by auto
    have a: "Advance it zone = Inr ?it'"
      using nz skip_to_lowest[OF n(2,3), of it1] by (simp add: Advance_def s)
    have nd: "\<not> Done ?it'"
      using i t wf_parts(3)[OF assms(1)] by (simp add: Done_def)
    have e: "q = q div ?K * ?K + q mod ?K" and m: "q mod ?K < ?K" by simp_all
    have "q div ?K * ?K \<le> Suc q" "Suc q \<le> Suc (q div ?K) * ?K"
      "Suc q - q div ?K * ?K = Suc (q mod ?K)"
      unfolding mult_Suc using e m by linarith+
    then have pos: "positioned zone b ?it' (Suc q)"
      using i t n(4) by (simp add: positioned_def Let_def)
    show ?thesis
      unfolding Cons list.case
    proof (intro exI[of _ ?it'] conjI)
      show "Advance it zone = Inr ?it'" by (rule a)
      show "target' ?it' = b" using t by simp
      show "\<not> Done ?it'" by (rule nd)
      show "current_index' ?it' = int (q div ?K)" using i(1) by simp
      show "current' ?it' = int q + (if q div ?K = nat (current_index' it) then e
                     else e + int (c - nat (current_index' it) * ?K))"
        using n(1) unfolding e'_def by simp
      show "positioned zone b ?it' (Suc q)" by (rule pos)
    qed
  qed
qed

lemma traverse_Done: "Done it \<Longrightarrow> traverse it zone out = Some (Inr out)"
  by (subst traverse.simps) simp

lemma traverse_step:
  "\<not> Done it \<Longrightarrow> Advance it zone = Inr it' \<Longrightarrow>
   traverse it zone out = traverse it' zone (out @ [current' it])"
  by (subst traverse.simps) (simp add: Current_def)

lemma traverse_result:
  fixes zone :: "'a::len word Zone"
  assumes "wf zone b" "\<not> Done it" "current' it = int q + e" "positioned zone b it (Suc q)"
    "current_index' it = int (q div LENGTH('a))"
  shows "traverse it zone out =
         Some (Inr (out @ reported LENGTH('a) e (q # bits_from (words zone b) (Suc q))))"
  using assms(2-)
proof (induction xs \<equiv> "bits_from (words zone b) (Suc q)" arbitrary: it q e out)
  case Nil
  have c: "current' it + 1 = int (Suc q) + e" using Nil.prems(2) by simp
  from Advance_result[OF assms(1) Nil.prems(3) c] Nil.hyps[symmetric]
  obtain it' where "Advance it zone = Inr it'" "Done it'" by auto
  then show ?case
    using Nil.prems(1,2) Nil.hyps[symmetric]
    by (simp add: traverse_step[of it zone it'] traverse_Done)
next
  case (Cons q' rest)
  let ?K = "LENGTH('a)"
  define e' where "e' = (if q' div ?K = q div ?K then e else e + int (q mod ?K) + 1)"
  have c: "current' it + 1 = int (Suc q) + e" using Cons.prems(2) by simp
  have ix: "nat (current_index' it) = q div ?K" using Cons.prems(4) by simp
  have "q = q div ?K * ?K + q mod ?K" by simp
  then have "Suc q - q div ?K * ?K = Suc (q mod ?K)" by linarith
  then have off: "int (Suc q - q div ?K * ?K) = int (q mod ?K) + 1" by simp
  from Advance_result[OF assms(1) Cons.prems(3) c] Cons.hyps(2)[symmetric]
  obtain it' where a: "Advance it zone = Inr it'" "\<not> Done it'"
    "current_index' it' = int (q' div ?K)"
    "current' it' = int q' + (if q' div ?K = q div ?K then e
                              else e + int (Suc q - q div ?K * ?K))"
    "positioned zone b it' (Suc q')"
    unfolding ix by auto
  have cu: "current' it' = int q' + e'" using a(4) off by (simp add: e'_def)
  have rest: "rest = bits_from (words zone b) (Suc q')"
    using bits_from_Cons(3)[OF Cons.hyps(2)[symmetric]] .
  from Cons.hyps(1)[OF rest a(2) cu a(5,3), of "out @ [int q + e]"]
  show ?case
    using Cons.prems(1,2) a(1) Cons.hyps(2)[symmetric] rest
    by (simp add: traverse_step[of it zone it'] e'_def)
qed

lemma Iterator_new_result:
  fixes zone :: "'a::len word Zone"
  assumes "wf zone b"
  shows "\<exists>it. Iterator_new b zone = Inr it \<and> target' it = b \<and>
     (case bits_from (words zone b) 0 of
        [] \<Rightarrow> Done it
      | q # rest \<Rightarrow> \<not> Done it \<and> current_index' it = int (q div LENGTH('a)) \<and>
          current' it = int q \<and> positioned zone b it (Suc q))"
proof -
  let ?ws = "words zone b"
  note w = wf_parts[OF assms]
  have dl: "1 \<le> data_length' b"
    using assms SizeFor_ge1[of "length' b", where 'a='a] by (simp add: wf_def)
  then have l: "0 < length ?ws" using w(3) by (cases "?ws") simp_all
  let ?it0 = "\<lparr>target' = b, current_index' = 0, current_value' = ?ws ! 0, current' = - 1\<rparr>"
  have r: "rd zone (data' b) 0 = Inr (?ws ! 0)" using w dl by (simp add: rd_def words_def)
  have new: "Iterator_new b zone = Advance ?it0 zone"
    using dl by (simp add: Iterator_new_def r)
  have pos: "positioned zone b ?it0 0" using l by (simp add: positioned_def)
  have cur: "current' ?it0 + 1 = int 0 + 0" by simp
  from Advance_result[OF assms pos cur] obtain it where
    a: "Advance ?it0 zone = Inr it" "target' it = b"
    and c: "case bits_from ?ws 0 of
        [] \<Rightarrow> Done it
      | q # rest \<Rightarrow>
          \<not> Done it \<and> current_index' it = int (q div LENGTH('a)) \<and>
          current' it = int q + (if q div LENGTH('a) = nat (current_index' ?it0) then 0
                     else 0 + int (0 - nat (current_index' ?it0) * LENGTH('a))) \<and>
          positioned zone b it (Suc q)"
    by blast
  have "case bits_from ?ws 0 of
        [] \<Rightarrow> Done it
      | q # rest \<Rightarrow> \<not> Done it \<and> current_index' it = int (q div LENGTH('a)) \<and>
          current' it = int q \<and> positioned zone b it (Suc q)"
    using c by (cases "bits_from ?ws 0") simp_all
  then show ?thesis unfolding new using a by blast
qed

text \<open>
  A full traversal returns, and what it gives is \<open>reported\<close> of the set positions of the
  words.
\<close>

lemma elements_result:
  fixes zone :: "'a::len word Zone"
  assumes "wf zone b"
  shows "elements b zone = Inr (reported LENGTH('a) 0 (bits_from (words zone b) 0))"
    and "\<exists>it. Iterator_new b zone = Inr it \<and> (Done it \<longleftrightarrow> bits_from (words zone b) 0 = [])"
proof -
  let ?ws = "words zone b"
  from Iterator_new_result[OF assms] obtain it1 where
    a: "Iterator_new b zone = Inr it1" and
    c: "case bits_from ?ws 0 of [] \<Rightarrow> Done it1
        | q # rest \<Rightarrow> \<not> Done it1 \<and> current_index' it1 = int (q div LENGTH('a)) \<and>
            current' it1 = int q \<and> positioned zone b it1 (Suc q)"
    by auto
  have both: "elements b zone = Inr (reported LENGTH('a) 0 (bits_from ?ws 0)) \<and>
      (Done it1 \<longleftrightarrow> bits_from ?ws 0 = [])"
  proof (cases "bits_from ?ws 0")
    case Nil
    with c have "Done it1" by simp
    then show ?thesis using Nil by (simp add: elements_def a traverse_Done)
  next
    case (Cons q rest)
    with c have d: "\<not> Done it1" "current' it1 = int q + 0" "positioned zone b it1 (Suc q)"
      "current_index' it1 = int (q div LENGTH('a))" by simp_all
    have "rest = bits_from ?ws (Suc q)" using bits_from_Cons(3)[OF Cons] .
    then show ?thesis
      using traverse_result[OF assms d, of "[]"] Cons d(1) by (simp add: elements_def a)
  qed
  then show "elements b zone = Inr (reported LENGTH('a) 0 (bits_from ?ws 0))" by simp
  show "\<exists>it. Iterator_new b zone = Inr it \<and> (Done it \<longleftrightarrow> bits_from ?ws 0 = [])"
    using both a by auto
qed

lemma popcount_word:
  fixes ws :: "'a::len word list"
  shows "length (filter (bit_at (ws @ [x])) [0..<length (ws @ [x]) * LENGTH('a)]) =
         length (filter (bit_at ws) [0..<length ws * LENGTH('a)]) + nat (popcount x)"
proof -
  let ?K = "LENGTH('a)" and ?n = "length ws"
  have a: "length (ws @ [x]) * ?K = ?n * ?K + ?K" by simp
  have b: "[0..<?n * ?K + ?K] = [0..<?n * ?K] @ [?n * ?K..<?n * ?K + ?K]"
    by (rule upt_add_eq_append) simp
  have c: "map (\<lambda>j. ?n * ?K + j) [0..<?K] = [?n * ?K..<?n * ?K + ?K]"
    using map_add_upt[of "?n * ?K" ?K] by (simp add: add.commute)
  have split: "[0..<length (ws @ [x]) * ?K] = [0..<?n * ?K] @ map (\<lambda>j. ?n * ?K + j) [0..<?K]"
    unfolding a b c ..
  have 1: "filter (bit_at (ws @ [x])) [0..<?n * ?K] = filter (bit_at ws) [0..<?n * ?K]"
    by (rule filter_cong) (simp_all add: bit_at_append)
  have 2: "filter (bit_at (ws @ [x]) \<circ> (\<lambda>j. ?n * ?K + j)) [0..<?K] = filter (bit x) [0..<?K]"
    by (rule filter_cong) (simp_all add: bit_at_append bit_at_def)
  show ?thesis
    unfolding split by (simp add: 1 filter_map 2 popcount_def)
qed

lemma Count_result:
  fixes zone :: "'a::len word Zone"
  assumes "wf zone b"
  shows "Count b zone = Inr (int (length (bits_from (words zone b) 0)))"
proof -
  let ?K = "LENGTH('a)" and ?ws = "words zone b"
  note w = wf_parts[OF assms]
  let ?I = "\<lambda>j (s::int). 0 \<le> j \<and> j \<le> data_length' b \<and>
     s = int (length (filter (bit_at (take (nat j) ?ws)) [0..<nat j * ?K]))"
  let ?body = "\<lambda>i count. case rd zone (data' b) i of Inl e \<Rightarrow> Inl e
                   | Inr x \<Rightarrow> Inr (count + popcount x)"
  have init: "?I 0 0" using w by simp
  have step: "\<exists>t'. ?body j t = Inr t' \<and> ?I (j + 1) t'" if j: "0 \<le> j" "j < data_length' b" "?I j t" for j t
  proof -
    have jl: "nat j < length ?ws" using j(1,2) w(3) by linarith
    have r: "rd zone (data' b) j = Inr (?ws ! nat j)"
      using j(1,2) w(1,2) by (simp add: rd_def words_def)
    have tk: "take (nat (j + 1)) ?ws = take (nat j) ?ws @ [?ws ! nat j]"
      using jl j by (simp add: nat_add_distrib take_Suc_conv_app_nth)
    have len: "length (take (nat j) ?ws @ [?ws ! nat j]) = nat (j + 1)"
      using jl j by (simp add: nat_add_distrib)
    have pc: "0 \<le> popcount (?ws ! nat j)" by (simp add: popcount_def)
    have "int (length (filter (bit_at (take (nat (j + 1)) ?ws)) [0..<nat (j + 1) * ?K])) =
          t + popcount (?ws ! nat j)"
      unfolding tk using popcount_word[of "take (nat j) ?ws" "?ws ! nat j"] j(3) jl pc
      unfolding len by (simp add: min_absorb2)
    then show ?thesis using r j by simp
  qed
  from for_loop_invariant[of ?I 0 0 "data_length' b" ?body, OF init w(4) step]
  obtain t where "for_loop 0 (data_length' b) ?body 0 = Inr t" "?I (data_length' b) t" by blast
  then show ?thesis using w by (simp add: Count_def bits_from_def)
qed

lemma sorted_bits_from: "sorted_wrt (<) (map int (bits_from ws c))"
proof -
  have "sorted_wrt (<) (bits_from ws c)"
    unfolding bits_from_def by (rule sorted_wrt_filter) simp
  then show ?thesis by (simp add: sorted_wrt_map)
qed

lemma set_bits_from: "p \<in> set (bits_from ws c) \<longleftrightarrow> c \<le> p \<and> bit_at ws p"
  by (auto simp: bits_from_def bit_at_def)

lemma length_reported: "length (reported W e qs) = length qs"
  by (induction W e qs rule: reported.induct) simp_all

lemma reported_same_word:
  "\<forall>q \<in> set qs. q div W = k \<Longrightarrow> reported W e qs = map (\<lambda>q. int q + e) qs"
  by (induction W e qs rule: reported.induct) simp_all

lemma reported_lower:
  "x \<in> set (reported W e qs) \<Longrightarrow> 0 \<le> e \<Longrightarrow> \<exists>q \<in> set qs. int q + e \<le> x"
proof (induction W e qs rule: reported.induct)
  case (3 W e q q' qs)
  let ?e' = "if q' div W = q div W then e else e + int (q mod W) + 1"
  have e': "e \<le> ?e'" "0 \<le> ?e'" using "3.prems"(2) by simp_all
  from "3.prems"(1) consider "x = int q + e" | "x \<in> set (reported W ?e' (q' # qs))" by auto
  then show ?case
  proof cases
    case 1
    then show ?thesis by simp
  next
    case 2
    from "3.IH"[OF 2 e'(2)] obtain p where "p \<in> set (q' # qs)" "int p + ?e' \<le> x" by blast
    then have "p \<in> set (q # q' # qs)" "int p + e \<le> x" using e'(1) by simp_all
    then show ?thesis by blast
  qed
qed simp_all

lemma reported_sorted:
  "sorted_wrt (<) qs \<Longrightarrow> 0 \<le> e \<Longrightarrow> sorted_wrt (<) (reported W e qs)"
proof (induction W e qs rule: reported.induct)
  case (3 W e q q' qs)
  let ?e' = "if q' div W = q div W then e else e + int (q mod W) + 1"
  have e': "e \<le> ?e'" "0 \<le> ?e'" using "3.prems"(2) by simp_all
  have s: "sorted_wrt (<) (q' # qs)" and lt: "\<forall>p \<in> set (q' # qs). q < p"
    using "3.prems"(1) by simp_all
  have "int q + e < x" if x: "x \<in> set (reported W ?e' (q' # qs))" for x
  proof -
    from reported_lower[OF x e'(2)] obtain p where p: "p \<in> set (q' # qs)" "int p + ?e' \<le> x"
      by blast
    then have "q < p" using lt by blast
    then show ?thesis using p(2) e'(1) by linarith
  qed
  then show ?case using "3.IH"[OF s e'(2)] by simp
qed simp_all

text \<open>
  What holds of every traversal: it returns; it gives as many indices as the words have
  set bits, which is \<^verbatim>\<open>Count()\<close>, in strictly ascending order; when no bit is set the iterator is
  \<^verbatim>\<open>Done()\<close> right after its construction and nothing is given; and when all the set bits are
  in one word (as in every vector of one word) the indices given are those of the set bits,
  so that \<^verbatim>\<open>Contains\<close> says of a valid index whether the traversal gives it.
\<close>

lemma traversal_properties:
  fixes zone :: "'a::len word Zone"
  assumes "wf zone b"
  shows "\<exists>xs. elements b zone = Inr xs \<and>
            xs = reported LENGTH('a) 0 (bits_from (words zone b) 0) \<and>
            sorted_wrt (<) xs \<and>
            Count b zone = Inr (int (length xs)) \<and>
            (IsEmpty b zone = Inr True \<longrightarrow>
               xs = [] \<and> (\<exists>it. Iterator_new b zone = Inr it \<and> Done it)) \<and>
            ((\<exists>k. \<forall>p. bit_at (words zone b) p \<longrightarrow> p div LENGTH('a) = k) \<longrightarrow>
               xs = map int (bits_from (words zone b) 0) \<and>
               (\<forall>i. 0 \<le> i \<and> i < length' b \<longrightarrow> Contains b i zone = Inr (i \<in> set xs)))"
proof -
  let ?ws = "words zone b" and ?K = "LENGTH('a)"
  let ?xs = "reported ?K 0 (bits_from ?ws 0)"
  have srt: "sorted_wrt (<) (bits_from ?ws 0)"
    unfolding bits_from_def by (rule sorted_wrt_filter) simp
  have e: "?xs = [] \<and> (\<exists>it. Iterator_new b zone = Inr it \<and> Done it)" if "IsEmpty b zone = Inr True"
  proof -
    have z: "\<forall>x \<in> set ?ws. x = 0" using that by (simp add: IsEmpty_eq[OF assms])
    have "\<not> bit_at ?ws p" for p
    proof
      assume p: "bit_at ?ws p"
      then have "p div ?K < length ?ws"
        by (simp add: bit_at_def div_less_iff_less_mult)
      then have "?ws ! (p div ?K) = 0" using z by simp
      with p show False by (simp add: bit_at_def)
    qed
    then have "bits_from ?ws 0 = []" by (intro bits_from_none) simp
    then show ?thesis using elements_result(2)[OF assms] by simp
  qed
  have one: "?xs = map int (bits_from ?ws 0) \<and>
      (\<forall>i. 0 \<le> i \<and> i < length' b \<longrightarrow> Contains b i zone = Inr (i \<in> set ?xs))"
    if "\<exists>k. \<forall>p. bit_at ?ws p \<longrightarrow> p div ?K = k"
  proof -
    from that obtain k where k: "\<forall>p. bit_at ?ws p \<longrightarrow> p div ?K = k" by blast
    then have "\<forall>q \<in> set (bits_from ?ws 0). q div ?K = k" by (simp add: set_bits_from)
    from reported_same_word[OF this, of 0] have x: "?xs = map int (bits_from ?ws 0)" by simp
    have "Contains b i zone = Inr (i \<in> set ?xs)" if i: "0 \<le> i" "i < length' b" for i
    proof -
      have "i \<in> int ` set (bits_from ?ws 0) \<longleftrightarrow> nat i \<in> set (bits_from ?ws 0)"
      proof
        assume "i \<in> int ` set (bits_from ?ws 0)"
        then obtain y where "y \<in> set (bits_from ?ws 0)" "i = int y" by auto
        then show "nat i \<in> set (bits_from ?ws 0)" by simp
      next
        assume "nat i \<in> set (bits_from ?ws 0)"
        then have "int (nat i) \<in> int ` set (bits_from ?ws 0)" by (rule imageI)
        then show "i \<in> int ` set (bits_from ?ws 0)" using i(1) by simp
      qed
      then show ?thesis by (simp add: x Contains_bit_at[OF assms i] set_bits_from)
    qed
    with x show ?thesis by blast
  qed
  show ?thesis
  proof (intro exI[of _ ?xs] conjI impI)
    show "elements b zone = Inr ?xs" by (rule elements_result(1)[OF assms])
    show "?xs = ?xs" ..
    show "sorted_wrt (<) ?xs" by (rule reported_sorted[OF srt]) simp
    show "Count b zone = Inr (int (length ?xs))"
      by (simp add: Count_result[OF assms] length_reported)
    show "?xs = []" if "IsEmpty b zone = Inr True" using e that by blast
    show "\<exists>it. Iterator_new b zone = Inr it \<and> Done it" if "IsEmpty b zone = Inr True"
      using e that by blast
    show "?xs = map int (bits_from ?ws 0)" if "\<exists>k. \<forall>p. bit_at ?ws p \<longrightarrow> p div ?K = k"
      using one that by blast
    show "\<forall>i. 0 \<le> i \<and> i < length' b \<longrightarrow> Contains b i zone = Inr (i \<in> set ?xs)"
      if "\<exists>k. \<forall>p. bit_at ?ws p \<longrightarrow> p div ?K = k"
      using one that by blast
  qed
qed

text \<open>
  With words of at least 10 bits, a vector of length 10 after \<^verbatim>\<open>Add(2); Add(5); Add(9)\<close>
  gives \<open>[2, 5, 9]\<close>, its count is 3, and it does not contain 3.
\<close>

lemma traversal_2_5_9:
  fixes zone :: "'a::len word Zone"
  assumes "10 \<le> LENGTH('a)"
  shows "\<exists>v z1 z2 z3 z4. BitVector_new 10 zone = Inr (v, z1) \<and> Add v 2 z1 = Inr z2 \<and>
            Add v 5 z2 = Inr z3 \<and> Add v 9 z3 = Inr z4 \<and>
            elements v z4 = Inr [2, 5, 9] \<and> Count v z4 = Inr 3 \<and>
            Contains v 3 z4 = Inr False"
proof -
  from BitVector_new_result[of 10 zone] obtain v z1 where
    n: "BitVector_new 10 zone = Inr (v, z1)" "wf z1 v" "length' v = 10"
      "words z1 v = replicate (nat (SizeFor TYPE('a) 10)) 0"
    by auto
  have i: "(0::int) \<le> 2" "2 < length' v" "(0::int) \<le> 5" "5 < length' v"
    "(0::int) \<le> 9" "9 < length' v" "(0::int) \<le> 3" "3 < length' v"
    using n(3) by simp_all
  from Add_result[OF n(2) i(1,2)] obtain z2 where
    a2: "Add v 2 z1 = Inr z2" "wf z2 v"
      "\<forall>p. bit_at (words z2 v) p \<longleftrightarrow> p = nat 2 \<or> bit_at (words z1 v) p"
    by blast
  from Add_result[OF a2(2) i(3,4)] obtain z3 where
    a3: "Add v 5 z2 = Inr z3" "wf z3 v"
      "\<forall>p. bit_at (words z3 v) p \<longleftrightarrow> p = nat 5 \<or> bit_at (words z2 v) p"
    by blast
  from Add_result[OF a3(2) i(5,6)] obtain z4 where
    a4: "Add v 9 z3 = Inr z4" "wf z4 v"
      "\<forall>p. bit_at (words z4 v) p \<longleftrightarrow> p = nat 9 \<or> bit_at (words z3 v) p"
    by blast
  let ?ws = "words z4 v" and ?K = "LENGTH('a)"
  have bits: "bit_at ?ws p \<longleftrightarrow> p = 2 \<or> p = 5 \<or> p = 9" for p
    using a2(3) a3(3) a4(3) n(4) by auto
  have b10: "bits_from ?ws 10 = []" by (intro bits_from_none) (simp add: bits)
  have b6: "bits_from ?ws 6 = 9 # bits_from ?ws (Suc 9)" by (intro bits_from_first) (simp_all add: bits)
  have b3: "bits_from ?ws 3 = 5 # bits_from ?ws (Suc 5)" by (intro bits_from_first) (simp_all add: bits)
  have b0: "bits_from ?ws 0 = 2 # bits_from ?ws (Suc 2)" by (intro bits_from_first) (simp_all add: bits)
  have all: "bits_from ?ws 0 = [2, 5, 9]"
    using b0 b3 b6 b10 by (simp add: eval_nat_numeral)
  have "\<forall>q \<in> set [2, 5, 9 :: nat]. q div ?K = 0" using assms by simp
  then have "reported ?K 0 [2, 5, 9] = map (\<lambda>q. int q + 0) [2, 5, 9]"
    by (rule reported_same_word)
  also have "\<dots> = [2, 5, 9]" by simp
  finally have rep: "reported ?K 0 [2, 5, 9] = [2, 5, 9]" .
  have "elements v z4 = Inr [2, 5, 9]" "Count v z4 = Inr 3"
    unfolding elements_result(1)[OF a4(2)] Count_result[OF a4(2)] all rep by simp_all
  moreover have "Contains v 3 z4 = Inr False"
    by (simp add: Contains_bit_at[OF a4(2) i(7,8)] bits)
  ultimately show ?thesis
    using n(1) a2(1) a3(1) a4(1) by blast
qed


section \<open>Copies and their storage\<close>

text \<open>
  The calls that change a vector, as values, so that a statement can range over all of
  them; \<open>mutate_all\<close> makes the calls one after the other and stops at the first failure.
\<close>

datatype mutation =
    M_Add int | M_Remove int | M_AddAll | M_Clear
  | M_Union BitVector | M_UnionIsChanged BitVector
  | M_Intersect BitVector | M_IntersectIsChanged BitVector
  | M_Subtract BitVector | M_CopyFrom BitVector | M_Resize int

definition in_place :: "BitVector \<Rightarrow> error + 'w Zone \<Rightarrow> error + BitVector \<times> 'w Zone" where
  "in_place this r = (case r of Inl e \<Rightarrow> Inl e | Inr zone \<Rightarrow> Inr (this, zone))"

definition drop_flag :: "BitVector \<Rightarrow> error + bool \<times> 'w Zone \<Rightarrow> error + BitVector \<times> 'w Zone" where
  "drop_flag this r = (case r of Inl e \<Rightarrow> Inl e | Inr (changed, zone) \<Rightarrow> Inr (this, zone))"

fun mutate :: "mutation \<Rightarrow> BitVector \<Rightarrow> 'a::len word Zone \<Rightarrow> error + BitVector \<times> 'a word Zone" where
  "mutate (M_Add i) this zone = in_place this (Add this i zone)"
| "mutate (M_Remove i) this zone = in_place this (Remove this i zone)"
| "mutate M_AddAll this zone = in_place this (AddAll this zone)"
| "mutate M_Clear this zone = in_place this (Clear this zone)"
| "mutate (M_Union other) this zone = in_place this (Union this other zone)"
| "mutate (M_UnionIsChanged other) this zone = drop_flag this (UnionIsChanged this other zone)"
| "mutate (M_Intersect other) this zone = in_place this (Intersect this other zone)"
| "mutate (M_IntersectIsChanged other) this zone =
     drop_flag this (IntersectIsChanged this other zone)"
| "mutate (M_Subtract other) this zone = in_place this (Subtract this other zone)"
| "mutate (M_CopyFrom other) this zone = in_place this (CopyFrom this other zone)"
| "mutate (M_Resize n) this zone = Resize this n zone"

fun mutate_all ::
    "mutation list \<Rightarrow> BitVector \<Rightarrow> 'a::len word Zone \<Rightarrow> error + BitVector \<times> 'a word Zone" where
  "mutate_all [] this zone = Inr (this, zone)"
| "mutate_all (m # ms) this zone =
     (case mutate m this zone of
        Inl e \<Rightarrow> Inl e
      | Inr (this1, zone1) \<Rightarrow> mutate_all ms this1 zone1)"

text \<open>A call that wrote to the array \<open>p\<close> only.\<close>

definition only_at :: "nat \<Rightarrow> 'w Zone \<Rightarrow> 'w Zone \<Rightarrow> bool" where
  "only_at p zone zone' \<longleftrightarrow>
     length (arrays zone') = length (arrays zone) \<and>
     (\<forall>q. q \<noteq> p \<longrightarrow> arrays zone' ! q = arrays zone ! q)"

lemma only_at_refl [simp]: "only_at p zone zone"
  by (simp add: only_at_def)

lemma only_at_trans: "only_at p z1 z2 \<Longrightarrow> only_at p z2 z3 \<Longrightarrow> only_at p z1 z3"
  by (simp add: only_at_def)

lemma wr_only_at: "wr zone p i v = Inr zone' \<Longrightarrow> only_at p zone zone'"
  by (auto simp: wr_def only_at_def split: if_splits)

lemma modify_only_at: "modify zone p i f = Inr zone' \<Longrightarrow> only_at p zone zone'"
  by (auto simp: modify_def split: sum.splits dest: wr_only_at)

lemma memset_only_at: "memset_words zone p v n = Inr zone' \<Longrightarrow> only_at p zone zone'"
  by (auto simp: memset_words_def only_at_def split: if_splits)

lemma for_loop_preserves:
  assumes "for_loop i n body s = Inr t" and "R s"
    and step: "\<And>j s s'. R s \<Longrightarrow> body j s = Inr s' \<Longrightarrow> R s'"
  shows "R t"
  using assms(1,2)
proof (induction "nat (n - i)" arbitrary: i s)
  case 0
  then show ?case by (subst (asm) for_loop.simps) simp
next
  case (Suc k)
  then have lt: "i < n" by simp
  with Suc.prems(1) obtain s' where s': "body i s = Inr s'" "for_loop (i + 1) n body s' = Inr t"
    by (subst (asm) for_loop.simps) (auto split: sum.splits)
  have "R s'" using step[OF Suc.prems(2) s'(1)] .
  moreover have "k = nat (n - (i + 1))" using Suc.hyps(2) by simp
  ultimately show ?case using Suc.hyps(1) s'(2) by blast
qed

lemma write_loop_only_at:
  assumes "for_loop i n body zone = Inr zone'"
    and "\<And>j z z'. body j z = Inr z' \<Longrightarrow> only_at p z z'"
  shows "only_at p zone zone'"
  using assms(1)
  by (rule for_loop_preserves[where R = "only_at p zone"]) (auto intro: only_at_trans assms(2))

lemma changed_loop_only_at:
  assumes "for_loop i n body (c, zone) = Inr (c', zone')"
    and "\<And>j c z c' z'. body j (c, z) = Inr (c', z') \<Longrightarrow> only_at p z z'"
  shows "only_at p zone zone'"
proof -
  have "only_at p zone (snd (c', zone'))"
    using assms(1)
  proof (rule for_loop_preserves[where R = "\<lambda>s. only_at p zone (snd s)"])
    show "only_at p zone (snd (c, zone))" by simp
    show "only_at p zone (snd s')" if "only_at p zone (snd s)" "body j s = Inr s'" for j s s'
      using that assms(2)[of j "fst s" "snd s" "fst s'" "snd s'"] by (auto intro: only_at_trans)
  qed
  then show ?thesis by simp
qed

lemma Add_only_at: "Add b i zone = Inr zone' \<Longrightarrow> only_at (data' b) zone zone'"
  by (auto simp: Add_def split: if_splits dest: modify_only_at)

lemma Remove_only_at: "Remove b i zone = Inr zone' \<Longrightarrow> only_at (data' b) zone zone'"
  by (auto simp: Remove_def split: if_splits dest: modify_only_at)

lemma AddAll_only_at: "AddAll b zone = Inr zone' \<Longrightarrow> only_at (data' b) zone zone'"
  by (auto simp: AddAll_def dest: memset_only_at)

lemma Clear_only_at: "Clear b zone = Inr zone' \<Longrightarrow> only_at (data' b) zone zone'"
  unfolding Clear_def by (erule write_loop_only_at) (rule wr_only_at)

lemma combine_only_at:
  "(case rd z q i of Inl e \<Rightarrow> Inl e | Inr y \<Rightarrow> modify z p i (f y)) = Inr z' \<Longrightarrow> only_at p z z'"
  by (auto split: sum.splits dest: modify_only_at)

lemma Union_only_at: "Union b other zone = Inr zone' \<Longrightarrow> only_at (data' b) zone zone'"
  unfolding Union_def
  by (auto split: if_splits elim!: write_loop_only_at dest: combine_only_at[where f = "\<lambda>y x. x OR y"])

lemma Intersect_only_at: "Intersect b other zone = Inr zone' \<Longrightarrow> only_at (data' b) zone zone'"
  unfolding Intersect_def
  by (auto split: if_splits elim!: write_loop_only_at dest: combine_only_at[where f = "\<lambda>y x. x AND y"])

lemma Subtract_only_at: "Subtract b other zone = Inr zone' \<Longrightarrow> only_at (data' b) zone zone'"
  unfolding Subtract_def
  by (auto split: if_splits elim!: write_loop_only_at
      dest: combine_only_at[where f = "\<lambda>y x. x AND NOT y"])

lemma changed_body_only_at:
  "(case rd z p i of
      Inl e \<Rightarrow> Inl e
    | Inr old_data \<Rightarrow>
        (case rd z q i of
           Inl e \<Rightarrow> Inl e
         | Inr y \<Rightarrow>
             (case wr z p i (f old_data y) of
                Inl e \<Rightarrow> Inl e
              | Inr z1 \<Rightarrow>
                  (case rd z1 p i of
                     Inl e \<Rightarrow> Inl e
                   | Inr new_data \<Rightarrow>
                       Inr (if new_data \<noteq> old_data then True else changed, z1))))) = Inr (c', z')
   \<Longrightarrow> only_at p z z'"
  by (auto split: sum.splits dest: wr_only_at)

lemma UnionIsChanged_only_at:
  "UnionIsChanged b other zone = Inr (c, zone') \<Longrightarrow> only_at (data' b) zone zone'"
  unfolding UnionIsChanged_def
  by (auto split: if_splits elim!: changed_loop_only_at dest: changed_body_only_at)

lemma IntersectIsChanged_only_at:
  "IntersectIsChanged b other zone = Inr (c, zone') \<Longrightarrow> only_at (data' b) zone zone'"
  unfolding IntersectIsChanged_def
  by (auto split: if_splits elim!: changed_loop_only_at dest: changed_body_only_at)

lemma copy_body_only_at:
  "(case rd z q i of Inl e \<Rightarrow> Inl e | Inr v \<Rightarrow> wr z p i v) = Inr z' \<Longrightarrow> only_at p z z'"
  by (auto split: sum.splits dest: wr_only_at)

lemma CopyFrom_data_only_at:
  assumes "CopyFrom_data b q m zone = Inr zone'"
  shows "only_at (data' b) zone zone'"
proof -
  from assms obtain z1 where
    1: "for_loop 0 m (\<lambda>i z. case rd z q i of Inl e \<Rightarrow> Inl e | Inr v \<Rightarrow> wr z (data' b) i v) zone = Inr z1"
    and 2: "for_loop m (data_length' b) (\<lambda>i z. wr z (data' b) i 0) z1 = Inr zone'"
    by (auto simp: CopyFrom_data_def split: if_splits sum.splits)
  have "only_at (data' b) zone z1"
    using 1 by (rule write_loop_only_at) (rule copy_body_only_at)
  moreover have "only_at (data' b) z1 zone'"
    using 2 by (rule write_loop_only_at) (rule wr_only_at)
  ultimately show ?thesis by (rule only_at_trans)
qed

lemma CopyFrom_only_at: "CopyFrom b other zone = Inr zone' \<Longrightarrow> only_at (data' b) zone zone'"
  by (auto simp: CopyFrom_def split: if_splits dest: CopyFrom_data_only_at)

lemma Resize_keeps:
  assumes "Resize b n zone = Inr (b', zone')"
  shows "length (arrays zone) \<le> length (arrays zone')"
    and "\<forall>q < length (arrays zone). arrays zone' ! q = arrays zone ! q"
    and "data' b' = data' b \<or> data' b' = length (arrays zone)"
proof -
  let ?n = "SizeFor TYPE('a) n"
  have "length (arrays zone) \<le> length (arrays zone') \<and>
    (\<forall>q < length (arrays zone). arrays zone' ! q = arrays zone ! q) \<and>
    (data' b' = data' b \<or> data' b' = length (arrays zone))"
  proof (cases "data_length' b < ?n")
    case False
    with assms show ?thesis by (auto simp: Resize_def split: if_splits)
  next
    case True
    let ?z1 = "zone\<lparr>arrays := arrays zone @ [map (fresh zone) [0..<nat ?n]]\<rparr>"
    let ?b1 = "b\<lparr>data' := length (arrays zone), data_length' := ?n\<rparr>"
    from assms True have c: "CopyFrom_data ?b1 (data' b) (data_length' b) ?z1 = Inr zone'"
      and b': "b' = ?b1\<lparr>length' := n\<rparr>"
      by (auto simp: Resize_def NewArray_def Let_def split: if_splits sum.splits)
    from CopyFrom_data_only_at[OF c] have "only_at (length (arrays zone)) ?z1 zone'" by simp
    then show ?thesis using b' by (auto simp: only_at_def nth_append)
  qed
  then show "length (arrays zone) \<le> length (arrays zone')"
    and "\<forall>q < length (arrays zone). arrays zone' ! q = arrays zone ! q"
    and "data' b' = data' b \<or> data' b' = length (arrays zone)"
    by blast+
qed

lemma only_at_keeps:
  assumes "only_at p zone zone'" "q < length (arrays zone)" "p \<noteq> q"
  shows "arrays zone' ! q = arrays zone ! q \<and> q < length (arrays zone') \<and> p \<noteq> q"
  using assms by (simp add: only_at_def)

lemma mutate_keeps:
  assumes "mutate m x zone = Inr (x', zone')" "q < length (arrays zone)" "data' x \<noteq> q"
  shows "arrays zone' ! q = arrays zone ! q \<and> q < length (arrays zone') \<and> data' x' \<noteq> q"
proof (cases m)
  case (M_Resize n)
  with assms(1) have r: "Resize x n zone = Inr (x', zone')" by simp
  from Resize_keeps[OF r] assms(2,3) show ?thesis by auto
qed (use assms in \<open>auto simp: in_place_def drop_flag_def split: sum.splits
      dest!: Add_only_at Remove_only_at AddAll_only_at Clear_only_at Union_only_at
        UnionIsChanged_only_at Intersect_only_at IntersectIsChanged_only_at Subtract_only_at
        CopyFrom_only_at
      dest: only_at_keeps\<close>)

lemma mutate_all_keeps:
  assumes "mutate_all ms x zone = Inr (x', zone')" "q < length (arrays zone)" "data' x \<noteq> q"
  shows "arrays zone' ! q = arrays zone ! q \<and> q < length (arrays zone') \<and> data' x' \<noteq> q"
  using assms
proof (induction ms arbitrary: x zone)
  case Nil
  then show ?case by simp
next
  case (Cons m ms)
  from Cons.prems(1) obtain x1 z1 where
    m: "mutate m x zone = Inr (x1, z1)" and ms: "mutate_all ms x1 z1 = Inr (x', zone')"
    by (auto split: sum.splits)
  from mutate_keeps[OF m Cons.prems(2,3)]
  have k: "arrays z1 ! q = arrays zone ! q" "q < length (arrays z1)" "data' x1 \<noteq> q" by simp_all
  from Cons.IH[OF ms k(2,3)] k(1) show ?case by simp
qed

lemma Contains_same_words:
  assumes "arrays zone' ! data' b = arrays zone ! data' b"
    "data' b < length (arrays zone)" "data' b < length (arrays zone')"
  shows "Contains b i zone' = Contains b i zone"
  using assms by (simp add: Contains_def rd_def)

text \<open>
  C9. The copy constructor returns a vector of the same length for which \<^verbatim>\<open>Equals\<close> with the
  original is true, in an array of its own: whatever sequence of changing calls (each of
  \<^verbatim>\<open>Add\<close>, \<^verbatim>\<open>Remove\<close>, \<^verbatim>\<open>AddAll\<close>, \<^verbatim>\<open>Clear\<close>, \<^verbatim>\<open>Union\<close>, \<^verbatim>\<open>UnionIsChanged\<close>, \<^verbatim>\<open>Intersect\<close>,
  \<^verbatim>\<open>IntersectIsChanged\<close>, \<^verbatim>\<open>Subtract\<close>, \<^verbatim>\<open>CopyFrom\<close>, \<^verbatim>\<open>Resize\<close>, with any arguments) is made
  on the copy, every \<^verbatim>\<open>Contains(i)\<close> on the original answers as before, and the other way
  round.
\<close>

theorem copy_independent:
  fixes zone :: "'a::len word Zone"
  assumes "wf zone b"
  shows "\<exists>b2 z1. BitVector_copy b zone = Inr (b2, z1) \<and> length' b2 = length' b \<and>
           Equals b2 b z1 = Inr True \<and> data' b2 \<noteq> data' b \<and>
           (\<forall>i. Contains b i z1 = Contains b i zone) \<and>
           (\<forall>ms b2' z2 i. mutate_all ms b2 z1 = Inr (b2', z2) \<longrightarrow>
              Contains b i z2 = Contains b i z1) \<and>
           (\<forall>ms b' z2 i. mutate_all ms b z1 = Inr (b', z2) \<longrightarrow>
              Contains b2 i z2 = Contains b2 i z1)"
proof -
  note w = wf_parts[OF assms]
  let ?b2 = "\<lparr>length' = length' b, data_length' = data_length' b, data' = length (arrays zone)\<rparr>"
  let ?z1 = "zone\<lparr>arrays := arrays zone @ [words zone b]\<rparr>"
  have c: "BitVector_copy b zone = Inr (?b2, ?z1)" by (rule BitVector_copy_eq[OF assms])
  have wf1: "wf ?z1 b" and wf2: "wf ?z1 ?b2"
    using assms w by (simp_all add: wf_def words_def nth_append)
  have ws: "words ?z1 ?b2 = words ?z1 b"
    using w by (simp add: words_def nth_append)
  have e: "Equals ?b2 b ?z1 = Inr True"
    using Equals_eq[OF wf2 wf1] ws by simp
  have ne: "data' ?b2 \<noteq> data' b" using w by simp
  have in1: "data' b < length (arrays ?z1)" "data' ?b2 < length (arrays ?z1)"
    using w by simp_all
  have same: "Contains b i ?z1 = Contains b i zone" for i
    using w by (intro Contains_same_words) (simp_all add: nth_append)
  have orig: "Contains b i z2 = Contains b i ?z1"
    if "mutate_all ms ?b2 ?z1 = Inr (b2', z2)" for ms b2' z2 i
    using mutate_all_keeps[OF that in1(1) ne] in1(1) by (intro Contains_same_words) simp_all
  have copy: "Contains ?b2 i z2 = Contains ?b2 i ?z1"
    if "mutate_all ms b ?z1 = Inr (b', z2)" for ms b' z2 i
    using mutate_all_keeps[OF that in1(2) ne[symmetric]] in1(2)
    by (intro Contains_same_words) simp_all
  show ?thesis
    using c e ne same orig copy by (intro exI[of _ ?b2] exI[of _ ?z1]) auto
qed

theorem copy_independent_witness:
  "wf zone259 vec10 \<and>
   BitVector_copy vec10 zone259 = Inr (vec10', zone259') \<and> Equals vec10' vec10 zone259' = Inr True \<and>
   (\<exists>z2. mutate_all [M_Add 3, M_Clear] vec10' zone259' = Inr (vec10', z2) \<and>
      Contains vec10 5 z2 = Contains vec10 5 zone259' \<and> Contains vec10' 5 z2 = Inr False) \<and>
   (\<exists>z2. mutate_all [M_Remove 5] vec10 zone259' = Inr (vec10, z2) \<and>
      Contains vec10' 5 z2 = Contains vec10' 5 zone259' \<and> Contains vec10 5 z2 = Inr False)"
proof -
  have c: "BitVector_copy vec10 zone259 = Inr (vec10', zone259')"
    unfolding BitVector_copy_eq[OF wf_259]
    by (simp add: example_defs vec10'_def zone259'_def words_def)
  from copy_independent [OF wf_259] c
  have e: "Equals vec10' vec10 zone259' = Inr True"
    and o: "\<forall>ms b2' z2 i. mutate_all ms vec10' zone259' = Inr (b2', z2) \<longrightarrow>
              Contains vec10 i z2 = Contains vec10 i zone259'"
    and p: "\<forall>ms b' z2 i. mutate_all ms vec10 zone259' = Inr (b', z2) \<longrightarrow>
              Contains vec10' i z2 = Contains vec10' i zone259'"
    by auto
  let ?za = "zone0\<lparr>arrays := [[548], [0]]\<rparr>"
  let ?zb = "zone0\<lparr>arrays := [[516], [548]]\<rparr>"
  have m1: "mutate_all [M_Add 3, M_Clear] vec10' zone259' = Inr (vec10', ?za)"
    by (simp add: in_place_def Add_def Clear_def eval_defs example_defs vec10'_def zone259'_def)
  have m2: "mutate_all [M_Remove 5] vec10 zone259' = Inr (vec10, ?zb)"
    by (simp add: in_place_def Remove_def eval_defs example_defs vec10'_def zone259'_def)
  have c1: "Contains vec10' 5 ?za = Inr False" "Contains vec10 5 ?zb = Inr False"
    by (simp_all add: Contains_def eval_defs example_defs vec10'_def)
  show ?thesis
    using wf_259 c e o m1 p m2 c1 by blast
qed

section \<open>The padding\<close>

lemma Remove_result:
  fixes zone :: "'a::len word Zone"
  assumes "wf zone b" "0 \<le> i" "i < length' b"
  shows "\<exists>z1. Remove b i zone = Inr z1 \<and> wf z1 b \<and>
           (\<forall>p. bit_at (words z1 b) p \<longleftrightarrow> p \<noteq> nat i \<and> bit_at (words zone b) p)"
proof -
  let ?K = "kDataBits TYPE('a)"
  let ?w = "nat (i div ?K)" and ?m = "nat (i mod ?K)"
  let ?z1 = "zone\<lparr>arrays := (arrays zone)[data' b :=
     (words zone b)[?w := words zone b ! ?w AND NOT (push_bit ?m 1)]]\<rparr>"
  note ix = wf_index[OF assms]
  note np = nat_position[OF assms(2), where 'a='a]
  have wf1: "wf ?z1 b"
    using assms(1) ix by (simp add: wf_set_words words_def)
  have w1: "words ?z1 b = (words zone b)[?w := words zone b ! ?w AND NOT (push_bit ?m 1)]"
    using ix by (simp add: words_set_words)
  have bits: "bit_at (words ?z1 b) p \<longleftrightarrow> p \<noteq> nat i \<and> bit_at (words zone b) p" for p
  proof (cases "p div LENGTH('a) = ?w")
    case True
    then have lt: "p < length (words zone b) * LENGTH('a)"
      using ix(1) by (simp add: div_less_iff_less_mult[symmetric])
    have "p mod LENGTH('a) = ?m \<longleftrightarrow> p = nat i"
      using True same_position_nat[of p "LENGTH('a)" "nat i"] by (simp add: np)
    then show ?thesis
      using True ix lt
      by (simp add: w1 bit_at_update bit_clear_one bit_at_def del: push_bit_of_1) blast
  next
    case False
    then have "p \<noteq> nat i" by (auto simp: np)
    with False ix show ?thesis by (simp add: w1 bit_at_update del: push_bit_of_1)
  qed
  have "Remove b i zone = Inr ?z1" by (rule Remove_eq[OF assms])
  then show ?thesis using wf1 bits by (intro exI[of _ ?z1] conjI allI) blast+
qed

lemma bit_at_map2:
  fixes xs ys :: "'a::len word list"
  assumes "length ys = length xs"
  shows "bit_at (map2 (OR) xs ys) p \<longleftrightarrow> bit_at xs p \<or> bit_at ys p"
    and "bit_at (map2 (AND) xs ys) p \<longleftrightarrow> bit_at xs p \<and> bit_at ys p"
    and "bit_at (map2 (\<lambda>x y. x AND NOT y) xs ys) p \<longleftrightarrow> bit_at xs p \<and> \<not> bit_at ys p"
proof -
  have i: "p div LENGTH('a) < length xs" if "p < length xs * LENGTH('a)"
    using that by (simp add: div_less_iff_less_mult)
  show "bit_at (map2 (OR) xs ys) p \<longleftrightarrow> bit_at xs p \<or> bit_at ys p"
    using assms i by (auto simp: bit_at_def bit_or_iff)
  show "bit_at (map2 (AND) xs ys) p \<longleftrightarrow> bit_at xs p \<and> bit_at ys p"
    using assms i by (auto simp: bit_at_def bit_and_iff)
  show "bit_at (map2 (\<lambda>x y. x AND NOT y) xs ys) p \<longleftrightarrow> bit_at xs p \<and> \<not> bit_at ys p"
    using assms i by (auto simp: bit_at_def bit_and_iff bit_not_iff dest: bit_imp_le_length)
qed

lemma words_eq_iff_bits:
  fixes xs ys :: "'a::len word list"
  assumes "length ys = length xs"
  shows "xs = ys \<longleftrightarrow> (\<forall>p. bit_at xs p = bit_at ys p)"
proof
  assume "\<forall>p. bit_at xs p = bit_at ys p"
  then have b: "bit_at xs p = bit_at ys p" for p by simp
  show "xs = ys"
  proof (rule nth_equalityI)
    show "length xs = length ys" using assms by simp
  next
    fix k assume k: "k < length xs"
    show "xs ! k = ys ! k"
    proof (rule bit_eqI)
      fix j assume "possible_bit TYPE('a word) j"
      then have j: "j < LENGTH('a)" by (simp add: possible_bit_def)
      from b[of "k * LENGTH('a) + j"] show "bit (xs ! k) j = bit (ys ! k) j"
        using bit_at_in_word[OF k j] bit_at_in_word[of k ys j] k j assms by simp
    qed
  qed
qed simp

lemma length_bits_from_card:
  "length (bits_from ws 0) = card {p. bit_at ws p}"
proof -
  have "distinct (bits_from ws 0)" by (simp add: bits_from_def)
  moreover have "set (bits_from ws 0) = {p. bit_at ws p}"
    by (auto simp: set_bits_from)
  ultimately show ?thesis by (metis distinct_card)
qed

lemma contained_set:
  fixes zone :: "'a::len word Zone"
  assumes "wf zone b"
  shows "{i. 0 \<le> i \<and> i < length' b \<and> Contains b i zone = Inr True} =
         int ` {p. p < nat (length' b) \<and> bit_at (words zone b) p}"
proof (rule set_eqI)
  fix i
  show "i \<in> {i. 0 \<le> i \<and> i < length' b \<and> Contains b i zone = Inr True} \<longleftrightarrow>
        i \<in> int ` {p. p < nat (length' b) \<and> bit_at (words zone b) p}"
  proof
    assume "i \<in> {i. 0 \<le> i \<and> i < length' b \<and> Contains b i zone = Inr True}"
    then have i: "0 \<le> i" "i < length' b" and c: "Contains b i zone = Inr True" by simp_all
    have "bit_at (words zone b) (nat i)" using c by (simp add: Contains_bit_at[OF assms i])
    moreover have "nat i < nat (length' b)" using i by simp
    ultimately have "int (nat i) \<in> int ` {p. p < nat (length' b) \<and> bit_at (words zone b) p}"
      by blast
    then show "i \<in> int ` {p. p < nat (length' b) \<and> bit_at (words zone b) p}" using i(1) by simp
  next
    assume "i \<in> int ` {p. p < nat (length' b) \<and> bit_at (words zone b) p}"
    then obtain p where p: "i = int p" "p < nat (length' b)" "bit_at (words zone b) p" by auto
    then have i: "0 \<le> i" "i < length' b" by simp_all
    have "Contains b i zone = Inr True"
      unfolding Contains_bit_at[OF assms i] using p(1,3) by simp
    then show "i \<in> {i. 0 \<le> i \<and> i < length' b \<and> Contains b i zone = Inr True}"
      using i by simp
  qed
qed

lemma new_padding:
  fixes zone :: "'a::len word Zone"
  assumes "0 \<le> len"
  shows "\<exists>v z1. BitVector_new len zone = Inr (v, z1) \<and> wf z1 v \<and> PaddingZero z1 v"
proof -
  from BitVector_new_result[OF assms, of zone] obtain v z1 where
    "BitVector_new len zone = Inr (v, z1)" "wf z1 v"
    "words z1 v = replicate (nat (SizeFor TYPE('a) len)) 0"
    by blast
  then show ?thesis by (auto simp: PaddingZero_iff)
qed

lemma copy_padding:
  fixes zone :: "'a::len word Zone"
  assumes "wf zone b"
  shows "\<exists>v z1. BitVector_copy b zone = Inr (v, z1) \<and> wf z1 v \<and>
           (PaddingZero z1 v \<longleftrightarrow> PaddingZero zone b)"
proof -
  note w = wf_parts[OF assms]
  let ?v = "\<lparr>length' = length' b, data_length' = data_length' b, data' = length (arrays zone)\<rparr>"
  let ?z1 = "zone\<lparr>arrays := arrays zone @ [words zone b]\<rparr>"
  have "wf ?z1 ?v" using assms w by (simp add: wf_def words_def)
  moreover have "words ?z1 ?v = words zone b" by (simp add: words_def)
  ultimately show ?thesis
    by (simp add: BitVector_copy_eq[OF assms] PaddingZero_iff)
qed

lemma set_words_padding:
  fixes zone :: "'a::len word Zone"
  assumes "wf zone b" "length W = length (words zone b)"
    "\<And>p. nat (length' b) \<le> p \<Longrightarrow> \<not> bit_at W p"
  shows "wf (zone\<lparr>arrays := (arrays zone)[data' b := W]\<rparr>) b \<and>
         PaddingZero (zone\<lparr>arrays := (arrays zone)[data' b := W]\<rparr>) b"
  using wf_after[OF assms(1,1,2)] wf_parts(1)[OF assms(1)] assms(3)
  by (simp add: PaddingZero_iff words_set_words)

lemma add_remove_padding:
  fixes zone :: "'a::len word Zone"
  assumes "wf zone b" "PaddingZero zone b" "0 \<le> i" "i < length' b"
  shows "(\<exists>z1. Add b i zone = Inr z1 \<and> wf z1 b \<and> PaddingZero z1 b) \<and>
         (\<exists>z1. Remove b i zone = Inr z1 \<and> wf z1 b \<and> PaddingZero z1 b)"
proof -
  have ni: "nat i < nat (length' b)" using assms(3,4) by simp
  from Add_result[OF assms(1,3,4)] obtain z1 where
    a: "Add b i zone = Inr z1" "wf z1 b"
      "\<forall>p. bit_at (words z1 b) p \<longleftrightarrow> p = nat i \<or> bit_at (words zone b) p"
    by blast
  from Remove_result[OF assms(1,3,4)] obtain z2 where
    r: "Remove b i zone = Inr z2" "wf z2 b"
      "\<forall>p. bit_at (words z2 b) p \<longleftrightarrow> p \<noteq> nat i \<and> bit_at (words zone b) p"
    by blast
  have "PaddingZero z1 b" "PaddingZero z2 b"
    using assms(2) a(3) r(3) ni by (auto simp: PaddingZero_iff)
  then show ?thesis using a r by blast
qed

lemma clear_padding:
  fixes zone :: "'a::len word Zone"
  assumes "wf zone b"
  shows "\<exists>z1. Clear b zone = Inr z1 \<and> wf z1 b \<and> PaddingZero z1 b"
  using set_words_padding[OF assms, of "replicate (length (words zone b)) 0"]
  by (simp add: Clear_eq[OF assms])

lemma resize_padding:
  fixes zone :: "'a::len word Zone"
  assumes "wf zone b" "PaddingZero zone b" "length' b < n"
  shows "\<exists>b2 z2. Resize b n zone = Inr (b2, z2) \<and> wf z2 b2 \<and> PaddingZero z2 b2"
proof -
  from Resize_result[OF assms(1,3)] obtain b2 z2 where
    r: "Resize b n zone = Inr (b2, z2)" "wf z2 b2" "length' b2 = n"
    and ws: "words z2 b2 = words zone b @ replicate (nat (SizeFor TYPE('a) n) - length (words zone b)) 0"
    by blast
  have "\<not> bit_at (words z2 b2) p" if "nat n \<le> p" for p
  proof -
    have "nat (length' b) \<le> p" using that assms(3) by simp
    then have "\<not> bit_at (words zone b) p" using assms(2) by (simp add: PaddingZero_iff)
    then show ?thesis by (simp add: ws bit_at_append)
  qed
  then have "PaddingZero z2 b2" using r(3) by (simp add: PaddingZero_iff)
  with r show ?thesis by blast
qed

lemma binary_padding:
  fixes zone :: "'a::len word Zone"
  assumes "wf zone b" "PaddingZero zone b" "wf zone c" "length' c = length' b"
  shows "\<exists>z1. Subtract b c zone = Inr z1 \<and> wf z1 b \<and> PaddingZero z1 b"
    and "\<exists>z1. Intersect b c zone = Inr z1 \<and> wf z1 b \<and> PaddingZero z1 b"
    and "\<exists>ch z1. IntersectIsChanged b c zone = Inr (ch, z1) \<and> wf z1 b \<and> PaddingZero z1 b"
    and "PaddingZero zone c \<Longrightarrow> \<exists>z1. Union b c zone = Inr z1 \<and> wf z1 b \<and> PaddingZero z1 b"
    and "PaddingZero zone c \<Longrightarrow>
         \<exists>ch z1. UnionIsChanged b c zone = Inr (ch, z1) \<and> wf z1 b \<and> PaddingZero z1 b"
proof -
  have l: "length (words zone c) = length (words zone b)"
    using wf_same_length(1)[OF assms(1,3,4)] .
  have pb: "\<not> bit_at (words zone b) p" if "nat (length' b) \<le> p" for p
    using assms(2) that by (simp add: PaddingZero_iff)
  show "\<exists>z1. Subtract b c zone = Inr z1 \<and> wf z1 b \<and> PaddingZero z1 b"
    using set_words_padding[OF assms(1), of "map2 (\<lambda>x y. x AND NOT y) (words zone b) (words zone c)"] l pb
    by (simp add: Subtract_eq[OF assms(1,3,4)] bit_at_map2)
  have i: "wf (zone\<lparr>arrays := (arrays zone)[data' b := map2 (AND) (words zone b) (words zone c)]\<rparr>) b \<and>
      PaddingZero (zone\<lparr>arrays := (arrays zone)[data' b := map2 (AND) (words zone b) (words zone c)]\<rparr>) b"
    using l pb by (intro set_words_padding[OF assms(1)]) (simp_all add: bit_at_map2)
  show "\<exists>z1. Intersect b c zone = Inr z1 \<and> wf z1 b \<and> PaddingZero z1 b"
    using i by (simp add: Intersect_eq[OF assms(1,3,4)])
  show "\<exists>ch z1. IntersectIsChanged b c zone = Inr (ch, z1) \<and> wf z1 b \<and> PaddingZero z1 b"
    using i by (simp add: IntersectIsChanged_eq[OF assms(1,3,4)])
  assume "PaddingZero zone c"
  then have pc: "\<not> bit_at (words zone c) p" if "nat (length' b) \<le> p" for p
    using that assms(4) by (simp add: PaddingZero_iff)
  have u: "wf (zone\<lparr>arrays := (arrays zone)[data' b := map2 (OR) (words zone b) (words zone c)]\<rparr>) b \<and>
      PaddingZero (zone\<lparr>arrays := (arrays zone)[data' b := map2 (OR) (words zone b) (words zone c)]\<rparr>) b"
    using l pb pc by (intro set_words_padding[OF assms(1)]) (simp_all add: bit_at_map2)
  show "\<exists>z1. Union b c zone = Inr z1 \<and> wf z1 b \<and> PaddingZero z1 b"
    using u by (simp add: Union_eq[OF assms(1,3,4)])
  show "\<exists>ch z1. UnionIsChanged b c zone = Inr (ch, z1) \<and> wf z1 b \<and> PaddingZero z1 b"
    using u by (simp add: UnionIsChanged_eq[OF assms(1,3,4)])
qed

lemma equals_logical:
  fixes zone :: "'a::len word Zone"
  assumes "wf zone b" "PaddingZero zone b" "wf zone c" "PaddingZero zone c" "length' c = length' b"
  shows "Equals b c zone =
         Inr (\<forall>i. 0 \<le> i \<and> i < length' b \<longrightarrow> Contains b i zone = Contains c i zone)"
proof -
  have l: "length (words zone c) = length (words zone b)"
    using wf_same_length(1)[OF assms(1,3,5)] .
  have "(\<forall>p. bit_at (words zone b) p = bit_at (words zone c) p) \<longleftrightarrow>
        (\<forall>i. 0 \<le> i \<and> i < length' b \<longrightarrow> Contains b i zone = Contains c i zone)"
  proof
    assume h: "\<forall>p. bit_at (words zone b) p = bit_at (words zone c) p"
    show "\<forall>i. 0 \<le> i \<and> i < length' b \<longrightarrow> Contains b i zone = Contains c i zone"
    proof (intro allI impI)
      fix i assume i: "0 \<le> i \<and> i < length' b"
      then have ic: "0 \<le> i" "i < length' b" "i < length' c" using assms(5) by simp_all
      show "Contains b i zone = Contains c i zone"
        using h by (simp add: Contains_bit_at[OF assms(1) ic(1,2)] Contains_bit_at[OF assms(3) ic(1,3)])
    qed
  next
    assume h: "\<forall>i. 0 \<le> i \<and> i < length' b \<longrightarrow> Contains b i zone = Contains c i zone"
    show "\<forall>p. bit_at (words zone b) p = bit_at (words zone c) p"
    proof
      fix p
      show "bit_at (words zone b) p = bit_at (words zone c) p"
      proof (cases "p < nat (length' b)")
        case True
        then have ic: "0 \<le> int p" "int p < length' b" "int p < length' c" using assms(5) by simp_all
        from h ic have "Contains b (int p) zone = Contains c (int p) zone" by simp
        then show ?thesis
          by (simp add: Contains_bit_at[OF assms(1) ic(1,2)] Contains_bit_at[OF assms(3) ic(1,3)])
      next
        case False
        then show ?thesis using assms(2,4,5) by (simp add: PaddingZero_iff)
      qed
    qed
  qed
  then show ?thesis
    using words_eq_iff_bits[OF l] by (simp add: Equals_eq[OF assms(1,3,5)])
qed

lemma count_logical:
  fixes zone :: "'a::len word Zone"
  assumes "wf zone b" "PaddingZero zone b"
  shows "Count b zone = Inr (int (card {i. 0 \<le> i \<and> i < length' b \<and> Contains b i zone = Inr True}))"
proof -
  have "{p. bit_at (words zone b) p} = {p. p < nat (length' b) \<and> bit_at (words zone b) p}"
    using assms(2) by (auto simp: PaddingZero_iff not_le[symmetric])
  then have "length (bits_from (words zone b) 0) =
      card {p. p < nat (length' b) \<and> bit_at (words zone b) p}"
    by (simp add: length_bits_from_card)
  also have "\<dots> = card (int ` {p. p < nat (length' b) \<and> bit_at (words zone b) p})"
    by (simp add: card_image)
  finally show ?thesis by (simp add: Count_result[OF assms(1)] contained_set[OF assms(1)])
qed

text \<open>
  C10, as the code has it. With \<open>PaddingZero\<close> for "no bit of the words at a position from
  \<open>length_\<close> on is set": the constructor establishes it; the copy constructor gives a copy
  that has it exactly when the original has it; and a vector that has it keeps it under
  \<^verbatim>\<open>Add(i)\<close> and \<^verbatim>\<open>Remove(i)\<close> for a valid \<open>i\<close>, \<^verbatim>\<open>Clear\<close>, \<^verbatim>\<open>Resize\<close>, \<^verbatim>\<open>Subtract\<close>,
  \<^verbatim>\<open>Intersect\<close> and \<^verbatim>\<open>IntersectIsChanged\<close> with any argument of its length, and under \<^verbatim>\<open>Union\<close>
  and \<^verbatim>\<open>UnionIsChanged\<close> when the argument has it too. For two vectors of one length that
  have it, \<^verbatim>\<open>Equals\<close> says whether they contain the same indices below the length, and
  \<^verbatim>\<open>Count\<close> is the number of indices below the length that the vector contains.
\<close>

theorem padding_invariant:
  fixes zone :: "'a::len word Zone"
  assumes "wf zone b" and "wf zone c" and "length' c = length' b"
  shows "(\<forall>len. 0 \<le> len \<longrightarrow> (\<exists>v z1. BitVector_new len zone = Inr (v, z1) \<and> PaddingZero z1 v)) \<and>
    (\<exists>v z1. BitVector_copy b zone = Inr (v, z1) \<and> (PaddingZero z1 v \<longleftrightarrow> PaddingZero zone b)) \<and>
    (PaddingZero zone b \<longrightarrow>
       (\<forall>i. 0 \<le> i \<and> i < length' b \<longrightarrow>
          (\<exists>z1. Add b i zone = Inr z1 \<and> PaddingZero z1 b) \<and>
          (\<exists>z1. Remove b i zone = Inr z1 \<and> PaddingZero z1 b)) \<and>
       (\<exists>z1. Clear b zone = Inr z1 \<and> PaddingZero z1 b) \<and>
       (\<forall>n. length' b < n \<longrightarrow> (\<exists>b2 z2. Resize b n zone = Inr (b2, z2) \<and> PaddingZero z2 b2)) \<and>
       (\<exists>z1. Subtract b c zone = Inr z1 \<and> PaddingZero z1 b) \<and>
       (\<exists>z1. Intersect b c zone = Inr z1 \<and> PaddingZero z1 b) \<and>
       (\<exists>ch z1. IntersectIsChanged b c zone = Inr (ch, z1) \<and> PaddingZero z1 b) \<and>
       (PaddingZero zone c \<longrightarrow> (\<exists>z1. Union b c zone = Inr z1 \<and> PaddingZero z1 b)) \<and>
       (PaddingZero zone c \<longrightarrow>
          (\<exists>ch z1. UnionIsChanged b c zone = Inr (ch, z1) \<and> PaddingZero z1 b)) \<and>
       (PaddingZero zone c \<longrightarrow>
          Equals b c zone =
            Inr (\<forall>i. 0 \<le> i \<and> i < length' b \<longrightarrow> Contains b i zone = Contains c i zone)) \<and>
       Count b zone =
         Inr (int (card {i. 0 \<le> i \<and> i < length' b \<and> Contains b i zone = Inr True})))"
proof (intro conjI impI allI)
  show "\<exists>v z1. BitVector_new len zone = Inr (v, z1) \<and> PaddingZero z1 v" if "0 \<le> len" for len
    using new_padding[OF that, of zone] by blast
  show "\<exists>v z1. BitVector_copy b zone = Inr (v, z1) \<and> (PaddingZero z1 v \<longleftrightarrow> PaddingZero zone b)"
    using copy_padding[OF assms(1)] by blast
next
  assume p: "PaddingZero zone b"
  show "\<exists>z1. Add b i zone = Inr z1 \<and> PaddingZero z1 b" if "0 \<le> i \<and> i < length' b" for i
    using add_remove_padding[OF assms(1) p, of i] that by blast
  show "\<exists>z1. Remove b i zone = Inr z1 \<and> PaddingZero z1 b" if "0 \<le> i \<and> i < length' b" for i
    using add_remove_padding[OF assms(1) p, of i] that by blast
  show "\<exists>z1. Clear b zone = Inr z1 \<and> PaddingZero z1 b"
    using clear_padding[OF assms(1)] by blast
  show "\<exists>b2 z2. Resize b n zone = Inr (b2, z2) \<and> PaddingZero z2 b2" if "length' b < n" for n
    using resize_padding[OF assms(1) p that] by blast
  show "\<exists>z1. Subtract b c zone = Inr z1 \<and> PaddingZero z1 b"
    using binary_padding(1)[OF assms(1) p assms(2,3)] by blast
  show "\<exists>z1. Intersect b c zone = Inr z1 \<and> PaddingZero z1 b"
    using binary_padding(2)[OF assms(1) p assms(2,3)] by blast
  show "\<exists>ch z1. IntersectIsChanged b c zone = Inr (ch, z1) \<and> PaddingZero z1 b"
    using binary_padding(3)[OF assms(1) p assms(2,3)] by blast
  show "\<exists>z1. Union b c zone = Inr z1 \<and> PaddingZero z1 b" if "PaddingZero zone c"
    using binary_padding(4)[OF assms(1) p assms(2,3) that] by blast
  show "\<exists>ch z1. UnionIsChanged b c zone = Inr (ch, z1) \<and> PaddingZero z1 b" if "PaddingZero zone c"
    using binary_padding(5)[OF assms(1) p assms(2,3) that] by blast
  show "Equals b c zone =
          Inr (\<forall>i. 0 \<le> i \<and> i < length' b \<longrightarrow> Contains b i zone = Contains c i zone)"
    if "PaddingZero zone c"
    by (rule equals_logical[OF assms(1) p assms(2) that assms(3)])
  show "Count b zone =
         Inr (int (card {i. 0 \<le> i \<and> i < length' b \<and> Contains b i zone = Inr True}))"
    by (rule count_logical[OF assms(1) p])
qed

text \<open>
  C10 as it is stated fails for the copy constructor: the copy of a vector of length 10
  whose word \<^verbatim>\<open>AddAll\<close> has filled holds the set padding bits of its original.
\<close>

theorem copy_padding_counterexample:
  "wf zoneFF vec10 \<and> BitVector_copy vec10 zoneFF = Inr (vec10', zoneFF') \<and>
   \<not> PaddingZero zoneFF' vec10'"
proof -
  have w: "wf zoneFF vec10" by (simp add: example_defs eval_defs)
  have c: "BitVector_copy vec10 zoneFF = Inr (vec10', zoneFF')"
    unfolding BitVector_copy_eq[OF w]
    by (simp add: example_defs vec10'_def zoneFF'_def words_def)
  have "bit_at (words zoneFF' vec10') 10"
    by (simp add: bit_at_def words_def zoneFF'_def vec10'_def)
  then have "\<not> PaddingZero zoneFF' vec10'"
    by (auto simp: PaddingZero_iff vec10'_def)
  with w c show ?thesis by blast
qed

lemma small_word_bits:
  fixes x :: "'a::len word"
  assumes "take_bit n x = x" "bit x p"
  shows "p < n"
proof -
  from assms have "bit (take_bit n x) p" by simp
  then show ?thesis unfolding bit_take_bit_iff by (rule conjunct1)
qed

lemma PaddingZero_AB: "PaddingZero zoneABC vecA" "PaddingZero zoneABC vecB"
proof -
  have a: "take_bit 8 (14 :: 64 word) = 14" and b: "take_bit 8 (56 :: 64 word) = 56" by simp_all
  have "\<not> bit_at [14 :: 64 word] p" "\<not> bit_at [56 :: 64 word] p" if "8 \<le> p" for p
    using small_word_bits[OF a, of p] small_word_bits[OF b, of p] that
    by (auto simp: bit_at_def)
  then show "PaddingZero zoneABC vecA" "PaddingZero zoneABC vecB"
    by (simp_all add: PaddingZero_iff abc_defs words_def)
qed

theorem padding_invariant_witness:
  "wf zoneABC vecA \<and> wf zoneABC vecB \<and> length' vecB = length' vecA \<and>
   PaddingZero zoneABC vecA \<and> PaddingZero zoneABC vecB \<and>
   (\<exists>v z1. BitVector_new 8 zoneABC = Inr (v, z1) \<and> PaddingZero z1 v) \<and>
   (\<exists>v z1. BitVector_copy vecA zoneABC = Inr (v, z1) \<and> PaddingZero z1 v) \<and>
   (\<exists>z1. Add vecA 5 zoneABC = Inr z1 \<and> PaddingZero z1 vecA) \<and>
   (\<exists>z1. Remove vecA 2 zoneABC = Inr z1 \<and> PaddingZero z1 vecA) \<and>
   (\<exists>z1. Clear vecA zoneABC = Inr z1 \<and> PaddingZero z1 vecA) \<and>
   (\<exists>b2 z2. Resize vecA 100 zoneABC = Inr (b2, z2) \<and> PaddingZero z2 b2) \<and>
   (\<exists>z1. Subtract vecA vecB zoneABC = Inr z1 \<and> PaddingZero z1 vecA) \<and>
   (\<exists>z1. Intersect vecA vecB zoneABC = Inr z1 \<and> PaddingZero z1 vecA) \<and>
   (\<exists>z1. Union vecA vecB zoneABC = Inr z1 \<and> PaddingZero z1 vecA) \<and>
   Equals vecA vecB zoneABC =
     Inr (\<forall>i. 0 \<le> i \<and> i < length' vecA \<longrightarrow> Contains vecA i zoneABC = Contains vecB i zoneABC) \<and>
   Count vecA zoneABC =
     Inr (int (card {i. 0 \<le> i \<and> i < length' vecA \<and> Contains vecA i zoneABC = Inr True}))"
proof -
  have h: "length' vecB = length' vecA" by (simp add: abc_defs)
  have i: "(0::int) \<le> 8" "(0::int) \<le> 5 \<and> 5 < length' vecA" "(0::int) \<le> 2 \<and> 2 < length' vecA"
    "length' vecA < 100"
    by (simp_all add: abc_defs)
  from padding_invariant [OF wf_ABC(1,2) h] PaddingZero_AB i wf_ABC(1,2) h
  show ?thesis by blast
qed

section \<open>Union of growable vectors\<close>

lemma EnsureCapacity_loop_zero_aux:
  assumes "EnsureCapacity_loop n v = Some r"
  shows "n = 0 \<longrightarrow> 0 \<le> v \<longrightarrow> False"
proof (rule EnsureCapacity_loop.raw_induct[where P = "\<lambda>n v r. n = 0 \<longrightarrow> 0 \<le> v \<longrightarrow> False", OF _ assms])
  fix loop :: "int \<Rightarrow> int \<Rightarrow> (error + int) option" and n v :: int and r :: "error + int"
  assume IH: "\<And>n v r. loop n v = Some r \<Longrightarrow> n = 0 \<longrightarrow> 0 \<le> v \<longrightarrow> False"
    and step: "(if n \<le> v
      then (if n * 2 > INT_MAX \<or> n * 2 < - INT_MAX - 1
            then Some (Inl IntOverflow)
            else loop (n * 2) v)
      else Some (Inr n)) = Some r"
  show "n = 0 \<longrightarrow> 0 \<le> v \<longrightarrow> False"
  proof (intro impI)
    assume n: "n = 0" and v: "0 \<le> v"
    with step have "loop 0 v = Some r" by (simp add: INT_MAX_def)
    with IH v show False by blast
  qed
qed

lemma EnsureCapacity_loop_zero:
  assumes "0 \<le> v"
  shows "EnsureCapacity_loop 0 v = None"
  using EnsureCapacity_loop_zero_aux[of 0 v] assms
  by (cases "EnsureCapacity_loop 0 v") auto

text \<open>
  C8 on a receiver whose backing vector has length 0. \<^verbatim>\<open>GrowableBitVector(0, zone)\<close> is a
  growable vector the constructor accepts; \<open>H\<close> is the empty growable vector after
  \<^verbatim>\<open>Add(0, zone)\<close>. Then \<^verbatim>\<open>G.Add(0, zone)\<close>, and so \<^verbatim>\<open>G.Union(H, zone)\<close>, never returns:
  \<^verbatim>\<open>EnsureCapacity\<close> doubles the length 0 for ever.
\<close>

theorem growable_union_diverges:
  fixes zone :: "'a::len word Zone"
  shows "\<exists>g z1 h z2. GrowableBitVector_new 0 zone = Inr (g, z1) \<and>
           Growable_Add GrowableBitVector_empty 0 z1 = Inr (h, z2) \<and>
           Growable_Contains h 0 z2 = Inr True \<and>
           EnsureCapacity_loop 0 0 = None \<and>
           Growable_Add g 0 z2 = Inl Diverges \<and>
           Growable_Union g h z2 = Inl Diverges"
proof -
  from BitVector_new_result[of 0 zone] obtain b0 z1 where
    n0: "BitVector_new 0 zone = Inr (b0, z1)" "length' b0 = 0"
    by auto
  let ?g = "\<lparr>bits' = Some b0\<rparr>"
  have g: "GrowableBitVector_new 0 zone = Inr (?g, z1)"
    by (simp add: GrowableBitVector_new_def n0(1))
  from BitVector_new_result[of 1024 z1] obtain b z2 where
    n: "BitVector_new 1024 z1 = Inr (b, z2)" "wf z2 b" "length' b = 1024"
      "words z2 b = replicate (nat (SizeFor TYPE('a) 1024)) 0"
    by auto
  have i: "(0::int) \<le> 0" "0 < length' b" using n(3) by simp_all
  from Add_result[OF n(2) i] obtain z3 where
    a: "Add b 0 z2 = Inr z3" "wf z3 b"
      "\<forall>p. bit_at (words z3 b) p \<longleftrightarrow> p = nat 0 \<or> bit_at (words z2 b) p"
    by blast
  let ?h = "\<lparr>bits' = Some b\<rparr>"
  have l: "EnsureCapacity_loop kInitialLength 0 = Some (Inr 1024)"
    by (simp add: EnsureCapacity_loop.simps kInitialLength_def)
  have e: "EnsureCapacity GrowableBitVector_empty 0 z1 = Inr (?h, z2)"
    by (simp add: EnsureCapacity_def InBitsRange_def GrowableBitVector_empty_def l n(1))
  have h: "Growable_Add GrowableBitVector_empty 0 z1 = Inr (?h, z3)"
    by (simp add: Growable_Add_def e a(1))
  have c: "Growable_Contains ?h 0 z3 = Inr True"
    using a(3) n(3) by (simp add: Growable_Contains_eq Contains_bit_at[OF a(2) i])
  have d: "EnsureCapacity_loop 0 0 = None" by (rule EnsureCapacity_loop_zero) simp
  have ga: "Growable_Add ?g 0 z3 = Inl Diverges"
    by (simp add: Growable_Add_def EnsureCapacity_def InBitsRange_def n0(2) d)
  have bits: "bit_at (words z3 b) p \<longleftrightarrow> p = 0" for p
    using a(3) n(4) by simp
  have "bits_from (words z3 b) 0 = 0 # bits_from (words z3 b) (Suc 0)"
    by (intro bits_from_first) (simp_all add: bits)
  with Iterator_new_result[OF a(2)] obtain it where
    it: "Iterator_new b z3 = Inr it" "\<not> Done it" "current' it = 0"
    by auto
  have gi: "Growable_Iterator_new ?h z3 = Inr (it, z3)"
    by (simp add: Growable_Iterator_new_def it(1))
  have "Growable_Union_loop it ?g z3 = Some (Inl Diverges)"
    using it(2,3) by (subst Growable_Union_loop.simps) (simp add: Current_def ga)
  then have u: "Growable_Union ?g ?h z3 = Inl Diverges"
    by (simp add: Growable_Union_def gi)
  show ?thesis
    using g h c d ga u by blast
qed

text \<open>
  An argument without a backing vector. The iterator is made over a fresh vector of length
  1, whose one word is zero; it is \<^verbatim>\<open>Done()\<close> at once, and the receiver is returned as it
  was.
\<close>

lemma growable_union_unallocated:
  fixes zone :: "'a::len word Zone"
  assumes "bits' h = None"
  shows "\<exists>it z1. Growable_Iterator_new h zone = Inr (it, z1) \<and> Done it \<and>
           arrays z1 = arrays zone @ [[0]] \<and> Growable_Union g h zone = Inr (g, z1)"
proof -
  from BitVector_new_result[of 1 zone] obtain b1 z1 where
    n: "BitVector_new 1 zone = Inr (b1, z1)" "wf z1 b1"
      "words z1 b1 = replicate (nat (SizeFor TYPE('a) 1)) 0" "data' b1 = length (arrays zone)"
      "length (arrays z1) = Suc (length (arrays zone))"
      "\<forall>q < length (arrays zone). arrays z1 ! q = arrays zone ! q"
    by auto
  have s1: "SizeFor TYPE('a) 1 = 1" by (simp add: SizeFor_def c_div_def)
  have ar: "arrays z1 = arrays zone @ [[0]]"
  proof (rule nth_equalityI)
    show "length (arrays z1) = length (arrays zone @ [[0]])" using n(5) by simp
  next
    fix q assume "q < length (arrays z1)"
    then consider "q < length (arrays zone)" | "q = length (arrays zone)" using n(5) by linarith
    then show "arrays z1 ! q = (arrays zone @ [[0]]) ! q"
    proof cases
      case 1
      then show ?thesis using n(6) by (simp add: nth_append)
    next
      case 2
      then show ?thesis using n(3,4) s1 by (simp add: words_def)
    qed
  qed
  have "bits_from (words z1 b1) 0 = []" by (intro bits_from_none) (simp add: n(3))
  with Iterator_new_result[OF n(2)] obtain it where
    it: "Iterator_new b1 z1 = Inr it" "Done it"
    by auto
  have gi: "Growable_Iterator_new h zone = Inr (it, z1)"
    using assms by (simp add: Growable_Iterator_new_def n(1) it(1))
  have dn: "Growable_Union_loop it g z1 = Some (Inr (g, z1))"
    using it(2) by (subst Growable_Union_loop.simps) simp
  have "Growable_Union g h zone = Inr (g, z1)"
    by (simp add: Growable_Union_def gi dn)
  with gi it(2) ar show ?thesis by blast
qed

end
